theory Spec2Isabelle
  imports Main
begin

text \<open>
  The two layout rules \<^verbatim>\<open>no-multiple-empty-lines\<close> and \<^verbatim>\<open>no-tabs\<close>: their handlers as
  functions of the source text, the options and the template literals of the program,
  with the reports they make as the result; then the properties of their reports and of
  the fix that a report carries.
\<close>

section \<open>JavaScript strings\<close>

text \<open>
  A JavaScript string is a sequence of UTF-16 code units. Both rules only compare code
  units with the tab, the white space and the line terminator characters, so a code unit
  is modelled by its number.
\<close>

type_synonym code_unit = int
type_synonym jsstring = "code_unit list"

definition TAB :: code_unit where "TAB = 9"
definition LF :: code_unit where "LF = 10"
definition CR :: code_unit where "CR = 13"
definition LS :: code_unit where "LS = 8232"
definition PS :: code_unit where "PS = 8233"

text \<open>ASCII text written as an Isabelle string literal.\<close>

definition js :: "string \<Rightarrow> jsstring" where
  "js s = map of_char s"

text \<open>
  The characters that \<^verbatim>\<open>String.prototype.trim\<close> strips and that the regular expression
  class \<^verbatim>\<open>\s\<close> matches: ECMAScript's WhiteSpace (TAB, VT, FF, SP, NBSP, ZWNBSP and the
  Unicode space separators) and LineTerminator (LF, CR, LS, PS). \<^verbatim>\<open>\S\<close> is the complement.
\<close>

definition is_whitespace :: "code_unit \<Rightarrow> bool" where
  "is_whitespace c =
     (c = 9 \<or> c = 10 \<or> c = 11 \<or> c = 12 \<or> c = 13 \<or> c = 32 \<or> c = 160 \<or> c = 5760
      \<or> (8192 \<le> c \<and> c \<le> 8202) \<or> c = 8232 \<or> c = 8233 \<or> c = 8239 \<or> c = 8287
      \<or> c = 12288 \<or> c = 65279)"

definition trim :: "jsstring \<Rightarrow> jsstring" where
  "trim s = rev (dropWhile is_whitespace (rev (dropWhile is_whitespace s)))"

text \<open>\<^verbatim>\<open>anyNonWhitespaceRegex.test(s)\<close> for \<^verbatim>\<open>/\S/u\<close>; the regular expression has no
  \<^verbatim>\<open>g\<close> flag, so the test keeps no state.\<close>

definition anyNonWhitespaceRegex_test :: "jsstring \<Rightarrow> bool" where
  "anyNonWhitespaceRegex_test s = list_ex (\<lambda>c. \<not> is_whitespace c) s"

section \<open>The source text and its lines\<close>

text \<open>
  Modelled from the spec: the \<^verbatim>\<open>SourceCode\<close> object behind \<^verbatim>\<open>context.sourceCode\<close> (the
  spec's SourceModel) is not part of the rules' files. It owns the raw text, splits it
  into lines at the line terminators (CR LF counting as one terminator, then CR, LF, LS
  and PS), and maps a (line, column) location to a flat offset, failing loudly on a
  location that is out of range. A text that ends with a terminator has an empty last
  line.
\<close>

definition is_linebreak :: "code_unit \<Rightarrow> bool" where
  "is_linebreak c = (c = LF \<or> c = CR \<or> c = LS \<or> c = PS)"

text \<open>A physical line: its content and the terminator that ends it (empty for the
  last line).\<close>

type_synonym phys_line = "jsstring \<times> jsstring"

fun scan_lines :: "jsstring \<Rightarrow> phys_line list" where
  "scan_lines [] = [([], [])]"
| "scan_lines (c # cs) =
     (if c = CR \<and> (case cs of [] \<Rightarrow> False | d # _ \<Rightarrow> d = LF)
      then ([], [CR, LF]) # scan_lines (tl cs)
      else if is_linebreak c then ([], [c]) # scan_lines cs
      else (case scan_lines cs of
              [] \<Rightarrow> [([c], [])]
            | (l, t) # rest \<Rightarrow> (c # l, t) # rest))"

definition join_lines :: "phys_line list \<Rightarrow> jsstring" where
  "join_lines ps = concat (map (\<lambda>(l, t). l @ t) ps)"

record source_code =
  src_text :: jsstring
  src_lines :: "jsstring list"
  lineStartIndices :: "nat list"

definition SourceCode :: "jsstring \<Rightarrow> source_code" where
  "SourceCode txt =
     (let ps = scan_lines txt in
      \<lparr> src_text = txt,
        src_lines = map fst ps,
        lineStartIndices = map (\<lambda>k. length (join_lines (take k ps))) [0..<length ps] \<rparr>)"

datatype range_error = LineOutOfRange | ColumnOutOfRange

definition getIndexFromLoc :: "source_code \<Rightarrow> int \<Rightarrow> int \<Rightarrow> range_error + nat" where
  "getIndexFromLoc sc ln col =
     (let starts = lineStartIndices sc; cnt = int (length starts) in
      if ln \<le> 0 \<or> ln > cnt then Inl LineOutOfRange
      else
        let lineStartIndex = int (starts ! nat (ln - 1));
            lineEndIndex = (if ln = cnt then int (length (src_text sc)) else int (starts ! nat ln));
            positionIndex = lineStartIndex + col
        in if (ln = cnt \<and> positionIndex > lineEndIndex) \<or> (ln < cnt \<and> positionIndex \<ge> lineEndIndex)
              \<or> positionIndex < 0
           then Inl ColumnOutOfRange
           else Inr (nat positionIndex))"

text \<open>Modelled from the spec: applying a fix replaces the half-open range of the raw
  text by the replacement text (the fixer is not part of the rules' files).\<close>

record text_fix =
  rangeStart :: nat
  rangeEnd :: nat
  replacementText :: jsstring

definition removeRange :: "nat \<Rightarrow> nat \<Rightarrow> text_fix" where
  "removeRange s e = \<lparr> rangeStart = s, rangeEnd = e, replacementText = [] \<rparr>"

definition apply_fix :: "jsstring \<Rightarrow> text_fix \<Rightarrow> jsstring" where
  "apply_fix txt f = take (rangeStart f) txt @ replacementText f @ drop (rangeEnd f) txt"

section \<open>The rule \<^verbatim>\<open>no-multiple-empty-lines\<close>\<close>

subsection \<open>Options\<close>

text \<open>
  A configuration value as the rule's schema sees it: an integer, an object with named
  properties, or any other JSON value.
\<close>

datatype json = JInteger int | JObject "(string \<times> json) list" | JOther

text \<open>The options object once it has passed the schema (the rule's \<^verbatim>\<open>RuleOptions\<close>):
  \<^verbatim>\<open>max\<close> is a number, \<^verbatim>\<open>maxEOF\<close> and \<^verbatim>\<open>maxBOF\<close> may be undefined.\<close>

record options_object =
  opt_max :: int
  opt_maxEOF :: "int option"
  opt_maxBOF :: "int option"

text \<open>\<^verbatim>\<open>{ type: 'integer', minimum: 0 }\<close>: the integer, when the value passes.\<close>

definition integer_minimum0 :: "json \<Rightarrow> int option" where
  "integer_minimum0 j = (case j of JInteger n \<Rightarrow> if 0 \<le> n then Some n else None | _ \<Rightarrow> None)"

text \<open>A property that is not required: absent, or present and checked.\<close>

definition optional_property :: "(string \<times> json) list \<Rightarrow> string \<Rightarrow> int option option" where
  "optional_property kvs k =
     (case map_of kvs k of None \<Rightarrow> Some None | Some v \<Rightarrow> map_option Some (integer_minimum0 v))"

text \<open>
  The schema of the rule's \<^verbatim>\<open>meta\<close>: an object whose properties \<^verbatim>\<open>max\<close>, \<^verbatim>\<open>maxEOF\<close>
  and \<^verbatim>\<open>maxBOF\<close> are integers from 0, with \<^verbatim>\<open>required: ['max']\<close> and
  \<^verbatim>\<open>additionalProperties: false\<close>. The result is the typed object, or \<open>None\<close> when the
  schema rejects the value.
\<close>

definition object_schema :: "json \<Rightarrow> options_object option" where
  "object_schema j =
     (case j of
        JObject kvs \<Rightarrow>
          if list_all (\<lambda>k. k = ''max'' \<or> k = ''maxEOF'' \<or> k = ''maxBOF'') (map fst kvs)
          then (case map_of kvs ''max'' of
                  None \<Rightarrow> None
                | Some m \<Rightarrow>
                    (case (integer_minimum0 m, optional_property kvs ''maxEOF'',
                           optional_property kvs ''maxBOF'') of
                       (Some m', Some e, Some b) \<Rightarrow>
                         Some \<lparr> opt_max = m', opt_maxEOF = e, opt_maxBOF = b \<rparr>
                     | _ \<Rightarrow> None))
          else None
      | _ \<Rightarrow> None)"

text \<open>
  Modelled from the spec: the check of a configuration against the schema of a rule is
  made by the engine before the rule is created, not by the rule's file. The schema is
  an array with one entry, so the options array holds at most one item, checked against
  that entry; an empty options array passes, which is the case that \<^verbatim>\<open>create\<close> provides
  its defaults for.
\<close>

definition validate_options :: "json list \<Rightarrow> options_object list option" where
  "validate_options options =
     (case options of
        [] \<Rightarrow> Some []
      | [j] \<Rightarrow> map_option (\<lambda>ob. [ob]) (object_schema j)
      | _ \<Rightarrow> None)"

record thresholds =
  th_max :: int
  th_maxEOF :: int
  th_maxBOF :: int

text \<open>The head of \<^verbatim>\<open>create\<close>: \<^verbatim>\<open>max\<close> starts at 2 and the two others at \<^verbatim>\<open>max\<close>; an
  options object replaces all three.\<close>

definition create :: "options_object list \<Rightarrow> thresholds" where
  "create options =
     (case options of
        [] \<Rightarrow> \<lparr> th_max = 2, th_maxEOF = 2, th_maxBOF = 2 \<rparr>
      | ob # _ \<Rightarrow>
          \<lparr> th_max = opt_max ob,
            th_maxEOF = (case opt_maxEOF ob of Some e \<Rightarrow> e | None \<Rightarrow> opt_max ob),
            th_maxBOF = (case opt_maxBOF ob of Some b \<Rightarrow> b | None \<Rightarrow> opt_max ob) \<rparr>)"

subsection \<open>Template literals\<close>

record position =
  pos_line :: int
  pos_column :: int

record source_location =
  loc_start :: position
  loc_end :: position

text \<open>A \<^verbatim>\<open>TemplateLiteral\<close> node, reduced to its own location, from the opening to the
  closing backtick, and the locations of its quasis, the parts of literal text before,
  between and behind the \<^verbatim>\<open>${ }\<close> expressions.\<close>

record template_literal =
  node_loc :: source_location
  quasis :: "source_location list"

text \<open>The \<^verbatim>\<open>TemplateLiteral\<close> handler adds to the set \<^verbatim>\<open>templateLiteralLines\<close> every
  line from a quasi's first line up to, but not including, its last line; it reads
  nothing of the node but its quasis.\<close>

definition TemplateLiteral :: "template_literal \<Rightarrow> int set \<Rightarrow> int set" where
  "TemplateLiteral node templateLiteralLines =
     fold (\<lambda>literalPart lns.
             fold insert [pos_line (loc_start literalPart) .. pos_line (loc_end literalPart) - 1] lns)
          (quasis node) templateLiteralLines"

subsection \<open>The scan at \<^verbatim>\<open>Program:exit\<close>\<close>

text \<open>The final line is dropped when it is empty.\<close>

definition allLines :: "source_code \<Rightarrow> jsstring list" where
  "allLines sc =
     (let ls = src_lines sc in if ls \<noteq> [] \<and> last ls = [] then butlast ls else ls)"

text \<open>The first \<^verbatim>\<open>reduce\<close>: the accumulator, the index and the lines still to visit.\<close>

fun nonEmptyLineNumbers_reduce :: "int set \<Rightarrow> int list \<Rightarrow> int \<Rightarrow> jsstring list \<Rightarrow> int list" where
  "nonEmptyLineNumbers_reduce tl_lines nonEmptyLineNumbers index [] = nonEmptyLineNumbers"
| "nonEmptyLineNumbers_reduce tl_lines nonEmptyLineNumbers index (ln # rest) =
     nonEmptyLineNumbers_reduce tl_lines
       (if trim ln \<noteq> [] \<or> index + 1 \<in> tl_lines
        then nonEmptyLineNumbers @ [index + 1] else nonEmptyLineNumbers)
       (index + 1) rest"

datatype message_id = blankBeginningOfFile | blankEndOfFile | consecutiveBlank

record report =
  messageId :: message_id
  loc :: source_location
  data_max :: int
  data_pluralizedLines :: string
  rep_fix :: "range_error + text_fix"

text \<open>The \<^verbatim>\<open>fix\<close> callback of a report.\<close>

definition fix_callback :: "source_code \<Rightarrow> int \<Rightarrow> int \<Rightarrow> int \<Rightarrow> int \<Rightarrow> range_error + text_fix" where
  "fix_callback sc allLines_length lastLineNumber lineNumber maxAllowed =
     (case getIndexFromLoc sc (lastLineNumber + 1) 0 of
        Inl e \<Rightarrow> Inl e
      | Inr rs \<Rightarrow>
          let lineNumberAfterRemovedLines = lineNumber - maxAllowed in
          (case (if lineNumberAfterRemovedLines \<le> allLines_length
                 then getIndexFromLoc sc lineNumberAfterRemovedLines 0
                 else Inr (length (src_text sc))) of
             Inl e \<Rightarrow> Inl e
           | Inr re \<Rightarrow> Inr (removeRange rs re)))"

definition context_report ::
    "source_code \<Rightarrow> int \<Rightarrow> int \<Rightarrow> int \<Rightarrow> message_id \<Rightarrow> int \<Rightarrow> report" where
  "context_report sc allLines_length lastLineNumber lineNumber mid maxAllowed =
     \<lparr> messageId = mid,
       loc = \<lparr> loc_start = \<lparr> pos_line = lastLineNumber + maxAllowed + 1, pos_column = 0 \<rparr>,
               loc_end = \<lparr> pos_line = lineNumber, pos_column = 0 \<rparr> \<rparr>,
       data_max = maxAllowed,
       data_pluralizedLines = (if maxAllowed = 1 then ''line'' else ''lines''),
       rep_fix = fix_callback sc allLines_length lastLineNumber lineNumber maxAllowed \<rparr>"

text \<open>The second \<^verbatim>\<open>reduce\<close>, from \<^verbatim>\<open>lastLineNumber = 0\<close>: the reports are collected in
  the order in which they are made.\<close>

fun report_reduce :: "thresholds \<Rightarrow> source_code \<Rightarrow> int \<Rightarrow> int \<Rightarrow> int list \<Rightarrow> report list" where
  "report_reduce th sc allLines_length lastLineNumber [] = []"
| "report_reduce th sc allLines_length lastLineNumber (lineNumber # rest) =
     (let (mid, maxAllowed) =
            (if lastLineNumber = 0 then (blankBeginningOfFile, th_maxBOF th)
             else if lineNumber = allLines_length + 1 then (blankEndOfFile, th_maxEOF th)
             else (consecutiveBlank, th_max th))
      in (if lineNumber - lastLineNumber - 1 > maxAllowed
          then [context_report sc allLines_length lastLineNumber lineNumber mid maxAllowed]
          else [])
         @ report_reduce th sc allLines_length lineNumber rest)"

definition line_markers :: "source_code \<Rightarrow> int set \<Rightarrow> int list" where
  "line_markers sc tl_lines =
     nonEmptyLineNumbers_reduce tl_lines [] 0 (allLines sc) @ [int (length (allLines sc)) + 1]"

definition Program_exit :: "thresholds \<Rightarrow> source_code \<Rightarrow> int set \<Rightarrow> report list" where
  "Program_exit th sc tl_lines =
     report_reduce th sc (int (length (allLines sc))) 0 (line_markers sc tl_lines)"

text \<open>
  One run of the rule: the options are checked against the schema first; then the
  \<^verbatim>\<open>TemplateLiteral\<close> nodes are visited, and \<^verbatim>\<open>Program:exit\<close> comes last.
\<close>

datatype config_error = SchemaViolation

definition no_multiple_empty_lines ::
    "json list \<Rightarrow> template_literal list \<Rightarrow> jsstring \<Rightarrow> config_error + report list" where
  "no_multiple_empty_lines raw_options nodes txt =
     (case validate_options raw_options of
        None \<Rightarrow> Inl SchemaViolation
      | Some options \<Rightarrow>
          Inr (Program_exit (create options) (SourceCode txt) (fold TemplateLiteral nodes {})))"

section \<open>The rule \<^verbatim>\<open>no-tabs\<close>\<close>

record no_tabs_options =
  allowIndentationTabs :: "bool option"

text \<open>\<^verbatim>\<open>context.options && context.options[0] && context.options[0].allowIndentationTabs\<close>,
  as the condition of the \<^verbatim>\<open>if\<close> reads it.\<close>

definition no_tabs_create :: "no_tabs_options list \<Rightarrow> bool" where
  "no_tabs_create options =
     (case options of
        [] \<Rightarrow> False
      | ob # _ \<Rightarrow> (case allowIndentationTabs ob of None \<Rightarrow> False | Some b \<Rightarrow> b))"

record regex_match =
  match_index :: nat
  match_text :: jsstring

text \<open>
  \<^verbatim>\<open>tabRegex.exec(line)\<close> for the global regular expression \<^verbatim>\<open>/\t+/gu\<close>, with the
  \<^verbatim>\<open>lastIndex\<close> it keeps between calls made explicit: the search starts at
  \<^verbatim>\<open>lastIndex\<close>, the first tab found is extended greedily, and \<^verbatim>\<open>lastIndex\<close> moves behind
  the match; without a match the result is \<^verbatim>\<open>null\<close> and \<^verbatim>\<open>lastIndex\<close> is reset to 0.
\<close>

definition tabRegex_exec :: "jsstring \<Rightarrow> nat \<Rightarrow> regex_match option \<times> nat" where
  "tabRegex_exec ln lastIndex =
     (let rest = drop lastIndex ln;
          skipped = takeWhile (\<lambda>c. c \<noteq> TAB) rest;
          run = takeWhile (\<lambda>c. c = TAB) (dropWhile (\<lambda>c. c \<noteq> TAB) rest)
      in if run = [] then (None, 0)
         else (Some \<lparr> match_index = lastIndex + length skipped, match_text = run \<rparr>,
               lastIndex + length skipped + length run))"

datatype tab_message_id = unexpectedTab

record tab_report =
  tab_messageId :: tab_message_id
  tab_loc :: source_location

definition tab_context_report :: "int \<Rightarrow> regex_match \<Rightarrow> tab_report" where
  "tab_context_report index m =
     \<lparr> tab_messageId = unexpectedTab,
       tab_loc = \<lparr> loc_start = \<lparr> pos_line = index + 1, pos_column = int (match_index m) \<rparr>,
                   loc_end = \<lparr> pos_line = index + 1,
                               pos_column = int (match_index m + length (match_text m)) \<rparr> \<rparr> \<rparr>"

lemma tabRegex_exec_advances:
  assumes "tabRegex_exec ln lastIndex = (Some m, lastIndex')"
  shows "lastIndex < lastIndex' \<and> lastIndex' \<le> length ln"
proof -
  let ?rest = "drop lastIndex ln"
  let ?skipped = "takeWhile (\<lambda>c. c \<noteq> TAB) ?rest"
  let ?after = "dropWhile (\<lambda>c. c \<noteq> TAB) ?rest"
  let ?run = "takeWhile (\<lambda>c. c = TAB) ?after"
  from assms have run: "?run \<noteq> []" and li: "lastIndex' = lastIndex + length ?skipped + length ?run"
    by (auto simp: tabRegex_exec_def Let_def split: if_splits)
  have "length ?skipped + length ?after = length ?rest"
    by (metis length_append takeWhile_dropWhile_id)
  moreover have "length ?run \<le> length ?after"
    by (rule length_takeWhile_le)
  moreover have "0 < length ?run" using run by simp
  moreover have "lastIndex < length ln"
  proof (rule ccontr)
    assume "\<not> lastIndex < length ln"
    then have "?rest = []" by simp
    then have "?run = []" by simp
    with run show False by contradiction
  qed
  ultimately show ?thesis using li by simp
qed

lemma tabRegex_exec_decreases:
  assumes "(Some m, lastIndex') = tabRegex_exec ln lastIndex"
  shows "length ln - lastIndex' < length ln - lastIndex"
  using tabRegex_exec_advances [OF assms [symmetric]] by arith

text \<open>The \<^verbatim>\<open>while\<close> loop over the matches of one line; it returns the reports made and
  the \<^verbatim>\<open>lastIndex\<close> it leaves behind.\<close>

function tab_loop :: "bool \<Rightarrow> int \<Rightarrow> jsstring \<Rightarrow> nat \<Rightarrow> tab_report list \<times> nat" where
  "tab_loop allow index ln lastIndex =
     (case tabRegex_exec ln lastIndex of
        (None, lastIndex') \<Rightarrow> ([], lastIndex')
      | (Some m, lastIndex') \<Rightarrow>
          if allow \<and> \<not> anyNonWhitespaceRegex_test (take (match_index m) ln)
          then tab_loop allow index ln lastIndex'
          else (case tab_loop allow index ln lastIndex' of
                  (reports, li) \<Rightarrow> (tab_context_report index m # reports, li)))"
  by pat_completeness auto
termination
  by (relation "measure (\<lambda>(allow, index, ln, lastIndex). length ln - lastIndex)")
     (auto dest: tabRegex_exec_decreases)

text \<open>\<^verbatim>\<open>sourceCode.getLines().forEach\<close>: the regular expression object, and with it
  \<^verbatim>\<open>lastIndex\<close>, is shared by all lines. It is created with \<^verbatim>\<open>lastIndex = 0\<close>, and every
  loop that has run to its end leaves \<^verbatim>\<open>lastIndex = 0\<close> behind.\<close>

fun lines_forEach :: "bool \<Rightarrow> int \<Rightarrow> nat \<Rightarrow> jsstring list \<Rightarrow> tab_report list \<times> nat" where
  "lines_forEach allow index lastIndex [] = ([], lastIndex)"
| "lines_forEach allow index lastIndex (ln # rest) =
     (case tab_loop allow index ln lastIndex of
        (reports, li) \<Rightarrow>
          (case lines_forEach allow (index + 1) li rest of
             (reports', li') \<Rightarrow> (reports @ reports', li')))"

definition Program :: "bool \<Rightarrow> source_code \<Rightarrow> tab_report list" where
  "Program allow sc = fst (lines_forEach allow 0 0 (src_lines sc))"

definition no_tabs :: "no_tabs_options list \<Rightarrow> jsstring \<Rightarrow> tab_report list" where
  "no_tabs options txt = Program (no_tabs_create options) (SourceCode txt)"

section \<open>Properties of the source model\<close>

lemma scan_lines_nonempty: "scan_lines s \<noteq> []"
  by (induction s rule: scan_lines.induct) (auto split: list.splits)

lemma scan_lines_CRLF: "scan_lines (CR # LF # ds) = ([], [CR, LF]) # scan_lines ds"
  by simp

lemma scan_lines_break:
  "is_linebreak c \<Longrightarrow> \<not> (c = CR \<and> (\<exists>ds. cs = LF # ds)) \<Longrightarrow>
   scan_lines (c # cs) = ([], [c]) # scan_lines cs"
  by (cases cs) auto

lemma scan_lines_char:
  "\<not> is_linebreak c \<Longrightarrow>
   scan_lines (c # cs) = (c # fst (hd (scan_lines cs)), snd (hd (scan_lines cs))) # tl (scan_lines cs)"
  using scan_lines_nonempty [of cs]
  by (cases "scan_lines cs") (auto simp: is_linebreak_def)

lemma scan_lines_cases [case_names Nil CRLF Break Char]:
  assumes "P []"
    and "\<And>ds. P ds \<Longrightarrow> P (CR # LF # ds)"
    and "\<And>c cs. is_linebreak c \<Longrightarrow> \<not> (c = CR \<and> (\<exists>ds. cs = LF # ds)) \<Longrightarrow> P cs \<Longrightarrow> P (c # cs)"
    and "\<And>c cs. \<not> is_linebreak c \<Longrightarrow> P cs \<Longrightarrow> P (c # cs)"
  shows "P s"
proof (induction s rule: length_induct)
  case (1 xs)
  show ?case
  proof (cases xs)
    case Nil
    with assms(1) show ?thesis by simp
  next
    case (Cons c cs)
    show ?thesis
    proof (cases "is_linebreak c")
      case False
      with 1 Cons assms(4) show ?thesis by simp
    next
      case True
      show ?thesis
      proof (cases "c = CR \<and> (\<exists>ds. cs = LF # ds)")
        case True
        then obtain ds where "cs = LF # ds" "c = CR" by auto
        with 1 Cons assms(2) show ?thesis by simp
      next
        case False
        with True 1 Cons assms(3) show ?thesis by simp
      qed
    qed
  qed
qed

lemma join_lines_Cons: "join_lines ((l, t) # ps) = l @ t @ join_lines ps"
  by (simp add: join_lines_def)

lemma join_lines_Nil: "join_lines [] = []"
  by (simp add: join_lines_def)

lemma join_lines_append: "join_lines (ps @ qs) = join_lines ps @ join_lines qs"
  by (simp add: join_lines_def)

lemma join_scan_lines: "join_lines (scan_lines s) = s"
proof (induction s rule: scan_lines_cases)
  case Nil
  show ?case by (simp add: join_lines_def)
next
  case (CRLF ds)
  then show ?case by (simp add: join_lines_Cons del: scan_lines.simps add: scan_lines_CRLF)
next
  case (Break c cs)
  then show ?case by (simp add: join_lines_Cons scan_lines_break del: scan_lines.simps)
next
  case (Char c cs)
  obtain l t rest where sc: "scan_lines cs = (l, t) # rest"
    using scan_lines_nonempty [of cs] by (cases "scan_lines cs") auto
  with Char show ?case by (simp add: join_lines_Cons scan_lines_char del: scan_lines.simps)
qed

section \<open>Properties of \<^verbatim>\<open>no-multiple-empty-lines\<close>\<close>

subsection \<open>Thresholds\<close>

text \<open>The value that the configuration supplies for an option, if it supplies one.\<close>

definition supplied :: "json list \<Rightarrow> string \<Rightarrow> json option" where
  "supplied raw_options k =
     (case raw_options of JObject kvs # _ \<Rightarrow> map_of kvs k | _ \<Rightarrow> None)"

lemma validate_options_cases:
  assumes "validate_options raw = Some options"
  shows "(raw = [] \<and> options = []) \<or>
         (\<exists>kvs m e b. raw = [JObject kvs]
            \<and> options = [\<lparr> opt_max = m, opt_maxEOF = e, opt_maxBOF = b \<rparr>]
            \<and> map_of kvs ''max'' = Some (JInteger m) \<and> 0 \<le> m
            \<and> optional_property kvs ''maxEOF'' = Some e
            \<and> optional_property kvs ''maxBOF'' = Some b)"
  using assms
  by (auto simp: validate_options_def object_schema_def integer_minimum0_def
           split: list.splits json.splits option.splits if_splits)

lemma optional_property_None:
  "optional_property kvs k = Some e \<Longrightarrow> map_of kvs k = None \<Longrightarrow> e = None"
  by (simp add: optional_property_def)

lemma optional_property_Some:
  "optional_property kvs k = Some e \<Longrightarrow> map_of kvs k = Some (JInteger v) \<Longrightarrow> e = Some v"
  by (auto simp: optional_property_def integer_minimum0_def split: if_splits)

text \<open>
  C8. For every configuration that passes the schema: when \<^verbatim>\<open>maxBOF\<close> is not supplied
  the beginning-of-file threshold is the threshold \<^verbatim>\<open>max\<close>, and when \<^verbatim>\<open>maxEOF\<close> is not
  supplied the end-of-file threshold is the threshold \<^verbatim>\<open>max\<close>; a supplied \<^verbatim>\<open>maxBOF\<close>,
  \<^verbatim>\<open>maxEOF\<close> or \<^verbatim>\<open>max\<close> is the threshold used, whatever the two others are.
\<close>

theorem thresholds_default_to_max:
  assumes "validate_options raw = Some options"
  shows "(supplied raw ''maxBOF'' = None \<longrightarrow> th_maxBOF (create options) = th_max (create options))
       \<and> (supplied raw ''maxEOF'' = None \<longrightarrow> th_maxEOF (create options) = th_max (create options))
       \<and> (\<forall>b. supplied raw ''maxBOF'' = Some (JInteger b) \<longrightarrow> th_maxBOF (create options) = b)
       \<and> (\<forall>e. supplied raw ''maxEOF'' = Some (JInteger e) \<longrightarrow> th_maxEOF (create options) = e)
       \<and> (\<forall>m. supplied raw ''max'' = Some (JInteger m) \<longrightarrow> th_max (create options) = m)"
  using validate_options_cases [OF assms]
  by (auto simp: supplied_def create_def dest: optional_property_None optional_property_Some)

theorem thresholds_default_to_max_witness:
  "validate_options [JObject [(''max'', JInteger 3), (''maxEOF'', JInteger 1)]]
     = Some [\<lparr> opt_max = 3, opt_maxEOF = Some 1, opt_maxBOF = None \<rparr>]
   \<and> th_maxBOF (create [\<lparr> opt_max = 3, opt_maxEOF = Some 1, opt_maxBOF = None \<rparr>]) = 3
   \<and> th_maxEOF (create [\<lparr> opt_max = 3, opt_maxEOF = Some 1, opt_maxBOF = None \<rparr>]) = 1
   \<and> th_max (create [\<lparr> opt_max = 3, opt_maxEOF = Some 1, opt_maxBOF = None \<rparr>]) = 3"
proof -
  have v: "validate_options [JObject [(''max'', JInteger 3), (''maxEOF'', JInteger 1)]]
     = Some [\<lparr> opt_max = 3, opt_maxEOF = Some 1, opt_maxBOF = None \<rparr>]"
    by (simp add: validate_options_def object_schema_def integer_minimum0_def
          optional_property_def)
  from thresholds_default_to_max [OF v] v show ?thesis
    by (simp add: supplied_def)
qed

subsection \<open>The marker sequence\<close>

lemma trim_nonempty_iff: "trim s \<noteq> [] \<longleftrightarrow> anyNonWhitespaceRegex_test s"
proof -
  have "dropWhile is_whitespace (rev (dropWhile is_whitespace s)) = []
          \<longleftrightarrow> dropWhile is_whitespace s = []"
  proof
    assume a: "dropWhile is_whitespace (rev (dropWhile is_whitespace s)) = []"
    show "dropWhile is_whitespace s = []"
    proof (rule ccontr)
      assume ne: "dropWhile is_whitespace s \<noteq> []"
      then have "\<not> is_whitespace (hd (dropWhile is_whitespace s))"
        by (rule hd_dropWhile)
      moreover have "hd (dropWhile is_whitespace s) \<in> set (rev (dropWhile is_whitespace s))"
        using ne by simp
      ultimately show False using a by (auto simp: dropWhile_eq_Nil_conv)
    qed
  next
    assume e: "dropWhile is_whitespace s = []"
    show "dropWhile is_whitespace (rev (dropWhile is_whitespace s)) = []"
      unfolding e by simp
  qed
  then have "trim s = [] \<longleftrightarrow> dropWhile is_whitespace s = []"
    by (simp add: trim_def)
  then show ?thesis
    by (auto simp: anyNonWhitespaceRegex_test_def list_ex_iff dropWhile_eq_Nil_conv)
qed

text \<open>A line is non-blank when it has content other than white space or is excluded as a
  template literal line.\<close>

definition nonblank_line :: "int set \<Rightarrow> jsstring list \<Rightarrow> int \<Rightarrow> bool" where
  "nonblank_line tl_lines ls k =
     (anyNonWhitespaceRegex_test (ls ! nat (k - 1)) \<or> k \<in> tl_lines)"

text \<open>The sorted sequence of the non-blank line numbers, then the sentinel.\<close>

definition spec_markers :: "int set \<Rightarrow> jsstring list \<Rightarrow> int list" where
  "spec_markers tl_lines ls =
     filter (nonblank_line tl_lines ls) [1 .. int (length ls)] @ [int (length ls) + 1]"

lemma upto_shift: "[i + 1 .. i + int (Suc n)] = (i + 1) # [(i + 1) + 1 .. (i + 1) + int n]"
  by (simp add: upto_rec1 add.commute add.left_commute)

lemma nonEmptyLineNumbers_reduce_filter:
  "nonEmptyLineNumbers_reduce T acc i ls =
     acc @ filter (\<lambda>k. anyNonWhitespaceRegex_test (ls ! nat (k - i - 1)) \<or> k \<in> T)
             [i + 1 .. i + int (length ls)]"
proof (induction ls arbitrary: acc i)
  case Nil
  show ?case by simp
next
  case (Cons l ls)
  have eq: "filter (\<lambda>k. anyNonWhitespaceRegex_test ((l # ls) ! nat (k - i - 1)) \<or> k \<in> T)
                [(i + 1) + 1 .. (i + 1) + int (length ls)]
          = filter (\<lambda>k. anyNonWhitespaceRegex_test (ls ! nat (k - (i + 1) - 1)) \<or> k \<in> T)
                [(i + 1) + 1 .. (i + 1) + int (length ls)]"
  proof (rule filter_cong [OF refl])
    fix k assume "k \<in> set [(i + 1) + 1 .. (i + 1) + int (length ls)]"
    then have "k - i - 1 > 0" by simp
    then have "nat (k - i - 1) = Suc (nat (k - (i + 1) - 1))" by simp
    then show "(anyNonWhitespaceRegex_test ((l # ls) ! nat (k - i - 1)) \<or> k \<in> T)
             = (anyNonWhitespaceRegex_test (ls ! nat (k - (i + 1) - 1)) \<or> k \<in> T)"
      by simp
  qed
  have up: "[i + 1 .. i + int (length (l # ls))] = (i + 1) # [(i + 1) + 1 .. (i + 1) + int (length ls)]"
    using upto_shift [of i "length ls"] by simp
  have hd: "(anyNonWhitespaceRegex_test ((l # ls) ! nat ((i + 1) - i - 1)) \<or> i + 1 \<in> T)
           = (trim l \<noteq> [] \<or> i + 1 \<in> T)"
    by (simp add: trim_nonempty_iff)
  have "nonEmptyLineNumbers_reduce T acc i (l # ls) =
        nonEmptyLineNumbers_reduce T
          (if trim l \<noteq> [] \<or> i + 1 \<in> T then acc @ [i + 1] else acc) (i + 1) ls"
    by simp
  also have "\<dots> = (if trim l \<noteq> [] \<or> i + 1 \<in> T then acc @ [i + 1] else acc)
        @ filter (\<lambda>k. anyNonWhitespaceRegex_test (ls ! nat (k - (i + 1) - 1)) \<or> k \<in> T)
                [(i + 1) + 1 .. (i + 1) + int (length ls)]"
    by (rule Cons.IH)
  also have "\<dots> = acc @ filter (\<lambda>k. anyNonWhitespaceRegex_test ((l # ls) ! nat (k - i - 1)) \<or> k \<in> T)
                 ((i + 1) # [(i + 1) + 1 .. (i + 1) + int (length ls)])"
    unfolding eq [symmetric] filter.simps hd by simp
  finally show ?case unfolding up .
qed

lemma line_markers_spec: "line_markers sc T = spec_markers T (allLines sc)"
proof -
  have "nonblank_line T (allLines sc)
        = (\<lambda>k. anyNonWhitespaceRegex_test (allLines sc ! nat (k - 0 - 1)) \<or> k \<in> T)"
    by (simp add: nonblank_line_def fun_eq_iff)
  then show ?thesis
    by (simp add: line_markers_def spec_markers_def nonEmptyLineNumbers_reduce_filter)
qed

subsection \<open>Runs, kinds and thresholds\<close>

text \<open>
  The scan as the specification words it: the runs are the consecutive pairs of the
  marker sequence, starting from the previous marker 0; the length of a run is the gap
  between its markers minus one; a run is at the beginning of the file when its previous
  marker is 0, at the end of the file when its current marker is the sentinel, and
  interior otherwise; a run is a violation when its length exceeds the threshold of its
  kind.
\<close>

definition spec_runs :: "int list \<Rightarrow> (int \<times> int) list" where
  "spec_runs ms = zip (0 # butlast ms) ms"

definition run_length :: "int \<Rightarrow> int \<Rightarrow> int" where
  "run_length previous current = current - previous - 1"

definition spec_kind :: "int \<Rightarrow> int \<Rightarrow> int \<Rightarrow> message_id" where
  "spec_kind totalLines previous current =
     (if previous = 0 then blankBeginningOfFile
      else if current = totalLines + 1 then blankEndOfFile
      else consecutiveBlank)"

definition spec_threshold :: "thresholds \<Rightarrow> message_id \<Rightarrow> int" where
  "spec_threshold th k =
     (case k of blankBeginningOfFile \<Rightarrow> th_maxBOF th
              | blankEndOfFile \<Rightarrow> th_maxEOF th
              | consecutiveBlank \<Rightarrow> th_max th)"

definition spec_violations :: "thresholds \<Rightarrow> int \<Rightarrow> int list \<Rightarrow> (int \<times> int) list" where
  "spec_violations th totalLines ms =
     filter (\<lambda>(previous, current).
               run_length previous current
                 > spec_threshold th (spec_kind totalLines previous current))
            (spec_runs ms)"

definition spec_report :: "thresholds \<Rightarrow> source_code \<Rightarrow> int \<Rightarrow> int \<times> int \<Rightarrow> report" where
  "spec_report th sc totalLines run =
     (case run of (previous, current) \<Rightarrow>
        context_report sc totalLines previous current (spec_kind totalLines previous current)
          (spec_threshold th (spec_kind totalLines previous current)))"

lemma report_reduce_spec:
  "report_reduce th sc n previous ms =
     map (spec_report th sc n)
       (filter (\<lambda>(p, c). run_length p c > spec_threshold th (spec_kind n p c))
          (zip (previous # butlast ms) ms))"
proof (induction ms arbitrary: previous)
  case Nil
  show ?case by simp
next
  case (Cons m ms)
  have z: "zip (previous # butlast (m # ms)) (m # ms) = (previous, m) # zip (m # butlast ms) ms"
    by (cases ms) simp_all
  show ?case
    unfolding z
    by (simp add: Cons.IH spec_report_def spec_kind_def spec_threshold_def run_length_def)
qed

lemma Program_exit_spec:
  "Program_exit th sc T =
     map (spec_report th sc (int (length (allLines sc))))
       (spec_violations th (int (length (allLines sc))) (spec_markers T (allLines sc)))"
  by (simp add: Program_exit_def report_reduce_spec line_markers_spec spec_violations_def
        spec_runs_def)

subsection \<open>The reports of a scan\<close>

lemma no_multiple_empty_lines_valid:
  "validate_options raw = Some options \<Longrightarrow>
   no_multiple_empty_lines raw nodes s
     = Inr (Program_exit (create options) (SourceCode s) (fold TemplateLiteral nodes {}))"
  by (simp add: no_multiple_empty_lines_def)

text \<open>
  C1. For every source text and every configuration that passes the schema, the reports
  of the rule are exactly the runs of the marker sequence (folded from the previous
  marker 0, ending with the sentinel \<open>totalLines + 1\<close>) whose length, the gap between the
  two markers minus one, exceeds the threshold of the run's kind: \<^verbatim>\<open>maxBOF\<close> when the
  previous marker is 0, \<^verbatim>\<open>maxEOF\<close> when the current marker is the sentinel, \<^verbatim>\<open>max\<close>
  otherwise. With \<^verbatim>\<open>maxBOF = 0\<close>, \<^verbatim>\<open>max = 5\<close>, \<^verbatim>\<open>maxEOF = 1\<close>, a text with 3 leading blank
  lines, an interior run of 6 and 2 trailing blank lines yields one beginning-of-file,
  one interior and one end-of-file report.
\<close>

theorem blank_runs_measured_and_classified:
  assumes "validate_options raw = Some options"
  shows "no_multiple_empty_lines raw nodes s =
           Inr (let th = create options; sc = SourceCode s;
                    tl_lines = fold TemplateLiteral nodes {};
                    totalLines = int (length (allLines sc))
                in map (spec_report th sc totalLines)
                     (spec_violations th totalLines (spec_markers tl_lines (allLines sc))))
       \<and> map_sum id (map messageId)
           (no_multiple_empty_lines
              [JObject [(''max'', JInteger 5), (''maxBOF'', JInteger 0), (''maxEOF'', JInteger 1)]]
              []
              (js ''\<newline>\<newline>\<newline>a\<newline>\<newline>\<newline>\<newline>\<newline>\<newline>\<newline>b\<newline>\<newline>\<newline>''))
         = Inr [blankBeginningOfFile, consecutiveBlank, blankEndOfFile]"
proof
  show "no_multiple_empty_lines raw nodes s =
           Inr (let th = create options; sc = SourceCode s;
                    tl_lines = fold TemplateLiteral nodes {};
                    totalLines = int (length (allLines sc))
                in map (spec_report th sc totalLines)
                     (spec_violations th totalLines (spec_markers tl_lines (allLines sc))))"
    by (simp add: no_multiple_empty_lines_valid [OF assms] Program_exit_spec Let_def)
next
  show "map_sum id (map messageId)
           (no_multiple_empty_lines
              [JObject [(''max'', JInteger 5), (''maxBOF'', JInteger 0), (''maxEOF'', JInteger 1)]]
              []
              (js ''\<newline>\<newline>\<newline>a\<newline>\<newline>\<newline>\<newline>\<newline>\<newline>\<newline>b\<newline>\<newline>\<newline>''))
         = Inr [blankBeginningOfFile, consecutiveBlank, blankEndOfFile]"
    by code_simp
qed

theorem blank_runs_measured_and_classified_witness:
  "validate_options [JObject [(''max'', JInteger 1)]]
     = Some [\<lparr> opt_max = 1, opt_maxEOF = None, opt_maxBOF = None \<rparr>]
   \<and> no_multiple_empty_lines [JObject [(''max'', JInteger 1)]] []
       (js ''a\<newline>\<newline>\<newline>b\<newline>\<newline>\<newline>'')
     = Inr (map (spec_report \<lparr> th_max = 1, th_maxEOF = 1, th_maxBOF = 1 \<rparr>
                   (SourceCode (js ''a\<newline>\<newline>\<newline>b\<newline>\<newline>\<newline>'')) 6)
              [(1, 4), (4, 7)])"
proof -
  have v: "validate_options [JObject [(''max'', JInteger 1)]]
     = Some [\<lparr> opt_max = 1, opt_maxEOF = None, opt_maxBOF = None \<rparr>]"
    by code_simp
  have c: "create [\<lparr> opt_max = 1, opt_maxEOF = None, opt_maxBOF = None \<rparr>]
            = \<lparr> th_max = 1, th_maxEOF = 1, th_maxBOF = 1 \<rparr>"
    by code_simp
  have n: "int (length (allLines (SourceCode (js ''a\<newline>\<newline>\<newline>b\<newline>\<newline>\<newline>'')))) = 6"
    by code_simp
  have m: "spec_violations \<lparr> th_max = 1, th_maxEOF = 1, th_maxBOF = 1 \<rparr> 6
             (spec_markers (fold TemplateLiteral [] {})
                (allLines (SourceCode (js ''a\<newline>\<newline>\<newline>b\<newline>\<newline>\<newline>''))))
           = [(1, 4), (4, 7)]"
    by code_simp
  from blank_runs_measured_and_classified [OF v,
      of "[]" "js ''a\<newline>\<newline>\<newline>b\<newline>\<newline>\<newline>''"]
  show ?thesis
    unfolding Let_def c n m using v by simp
qed


text \<open>
  C10. When the marker sequence holds only the sentinel \<open>totalLines + 1\<close>, the single run
  is judged as a beginning-of-file run: it is reported exactly when the number of lines
  exceeds \<^verbatim>\<open>maxBOF\<close>, with the message \<^verbatim>\<open>blankBeginningOfFile\<close> and \<^verbatim>\<open>maxBOF\<close> as the
  allowed maximum, whatever \<^verbatim>\<open>max\<close> and \<^verbatim>\<open>maxEOF\<close> are.
\<close>

theorem wholly_blank_file_is_beginning_of_file:
  assumes "line_markers sc tl_lines = [int (length (allLines sc)) + 1]"
  shows "Program_exit th sc tl_lines =
           (if int (length (allLines sc)) > th_maxBOF th
            then [context_report sc (int (length (allLines sc))) 0 (int (length (allLines sc)) + 1)
                    blankBeginningOfFile (th_maxBOF th)]
            else [])"
  by (simp add: Program_exit_def assms)

theorem wholly_blank_file_is_beginning_of_file_witness:
  "line_markers (SourceCode (js ''\<newline>\<newline>\<newline>'')) {} = [3 + 1]
   \<and> map (\<lambda>r. (messageId r, data_max r))
         (Program_exit \<lparr> th_max = 5, th_maxEOF = 7, th_maxBOF = 1 \<rparr>
            (SourceCode (js ''\<newline>\<newline>\<newline>'')) {})
       = [(blankBeginningOfFile, 1)]"
proof -
  have n: "int (length (allLines (SourceCode (js ''\<newline>\<newline>\<newline>'')))) = 3"
    by code_simp
  have m: "line_markers (SourceCode (js ''\<newline>\<newline>\<newline>'')) {} = [3 + 1]"
    by code_simp
  have "line_markers (SourceCode (js ''\<newline>\<newline>\<newline>'')) {}
          = [int (length (allLines (SourceCode (js ''\<newline>\<newline>\<newline>'')))) + 1]"
    unfolding n by (rule m)
  from wholly_blank_file_is_beginning_of_file [OF this,
      of "\<lparr> th_max = 5, th_maxEOF = 7, th_maxBOF = 1 \<rparr>"] m
  show ?thesis
    unfolding n by (simp add: context_report_def)
qed

text \<open>
  C7, as stated, fails: a configuration with an empty options array has no \<^verbatim>\<open>max\<close>, passes
  the schema, and the rule runs with \<^verbatim>\<open>max\<close> defaulted to 2.
\<close>

theorem missing_max_counterexample:
  "map_sum id (map (\<lambda>r. (messageId r, data_max r)))
     (no_multiple_empty_lines [] []
        (js ''a\<newline>\<newline>\<newline>\<newline>\<newline>b\<newline>''))
   = Inr [(consecutiveBlank, 2)]"
  by code_simp

text \<open>
  C7, amended. An options object without \<^verbatim>\<open>max\<close> is rejected before any scan runs, and
  an options object that is accepted supplies the \<^verbatim>\<open>max\<close> that is used; a configuration
  without an options object is accepted and runs with all three thresholds at 2.
\<close>

theorem max_required_in_options_object:
  "(map_of kvs ''max'' = None \<longrightarrow>
      no_multiple_empty_lines [JObject kvs] nodes s = Inl SchemaViolation)
   \<and> no_multiple_empty_lines [] nodes s
       = Inr (Program_exit \<lparr> th_max = 2, th_maxEOF = 2, th_maxBOF = 2 \<rparr>
                (SourceCode s) (fold TemplateLiteral nodes {}))
   \<and> (\<forall>ob obs. validate_options raw = Some (ob # obs) \<longrightarrow>
        supplied raw ''max'' = Some (JInteger (th_max (create (ob # obs)))))"
proof (intro conjI impI allI)
  assume "map_of kvs ''max'' = None"
  then show "no_multiple_empty_lines [JObject kvs] nodes s = Inl SchemaViolation"
    by (simp add: no_multiple_empty_lines_def validate_options_def object_schema_def)
next
  show "no_multiple_empty_lines [] nodes s
       = Inr (Program_exit \<lparr> th_max = 2, th_maxEOF = 2, th_maxBOF = 2 \<rparr>
                (SourceCode s) (fold TemplateLiteral nodes {}))"
    by (simp add: no_multiple_empty_lines_def validate_options_def create_def)
next
  fix ob obs
  assume "validate_options raw = Some (ob # obs)"
  from validate_options_cases [OF this]
  show "supplied raw ''max'' = Some (JInteger (th_max (create (ob # obs))))"
    by (auto simp: supplied_def create_def)
qed

theorem max_required_in_options_object_witness:
  "map_of [(''maxEOF'', JInteger 1)] ''max'' = None
   \<and> no_multiple_empty_lines [JObject [(''maxEOF'', JInteger 1)]] []
        (js ''a\<newline>\<newline>\<newline>\<newline>\<newline>b\<newline>'') = Inl SchemaViolation
   \<and> validate_options [JObject [(''max'', JInteger 4)]]
        = Some [\<lparr> opt_max = 4, opt_maxEOF = None, opt_maxBOF = None \<rparr>]
   \<and> supplied [JObject [(''max'', JInteger 4)]] ''max''
        = Some (JInteger (th_max (create [\<lparr> opt_max = 4, opt_maxEOF = None, opt_maxBOF = None \<rparr>])))"
proof -
  have a: "map_of [(''maxEOF'', JInteger 1)] ''max'' = None"
    by simp
  have v: "validate_options [JObject [(''max'', JInteger 4)]]
        = Some [\<lparr> opt_max = 4, opt_maxEOF = None, opt_maxBOF = None \<rparr>]"
    by code_simp
  from max_required_in_options_object [of "[(''maxEOF'', JInteger 1)]" "[]"
      "js ''a\<newline>\<newline>\<newline>\<newline>\<newline>b\<newline>''" "[JObject [(''max'', JInteger 4)]]"]
    a v
  show ?thesis by blast
qed

subsection \<open>Template literal lines\<close>

lemma fold_insert_upto: "fold insert [a .. b] S = S \<union> {a .. b}"
proof (induction "nat (b - a + 1)" arbitrary: a S)
  case 0
  then show ?case by (simp add: upto.simps)
next
  case (Suc n)
  then have le: "a \<le> b" and n: "n = nat (b - (a + 1) + 1)" by simp_all
  have "[a .. b] = a # [a + 1 .. b]" using le by (simp add: upto_rec1)
  then have "fold insert [a .. b] S = fold insert [a + 1 .. b] (insert a S)" by simp
  also have "\<dots> = insert a S \<union> {a + 1 .. b}" using Suc.hyps(1) [OF n] .
  also have "\<dots> = S \<union> {a .. b}" using le by auto
  finally show ?case .
qed

lemma TemplateLiteral_lines:
  "TemplateLiteral node S =
     S \<union> (\<Union>q \<in> set (quasis node). {pos_line (loc_start q) .. pos_line (loc_end q) - 1})"
proof -
  have "fold (\<lambda>literalPart lns.
             fold insert [pos_line (loc_start literalPart) .. pos_line (loc_end literalPart) - 1] lns)
          qs S
        = S \<union> (\<Union>q \<in> set qs. {pos_line (loc_start q) .. pos_line (loc_end q) - 1})" for qs
    by (induction qs arbitrary: S) (auto simp: fold_insert_upto)
  then show ?thesis by (simp add: TemplateLiteral_def)
qed

lemma fold_TemplateLiteral_lines:
  "fold TemplateLiteral nodes S =
     S \<union> (\<Union>node \<in> set nodes. \<Union>q \<in> set (quasis node).
             {pos_line (loc_start q) .. pos_line (loc_end q) - 1})"
  by (induction nodes arbitrary: S) (auto simp: TemplateLiteral_lines)

lemma set_spec_markers:
  "set (spec_markers T ls) =
     {k. 1 \<le> k \<and> k \<le> int (length ls) \<and> nonblank_line T ls k} \<union> {int (length ls) + 1}"
  by (auto simp: spec_markers_def)

lemma sorted_spec_markers: "sorted_wrt (<) (spec_markers T ls)"
proof -
  have "sorted_wrt (<) [1 .. int (length ls)]"
    by (simp add: sorted_wrt_upto)
  then have "sorted_wrt (<) (filter (nonblank_line T ls) [1 .. int (length ls)])"
    by (rule sorted_wrt_filter)
  then show ?thesis
    by (auto simp: spec_markers_def sorted_wrt_append)
qed

lemma spec_markers_positive: "k \<in> set (spec_markers T ls) \<Longrightarrow> 0 < k"
  by (auto simp: set_spec_markers)

text \<open>Between the two markers of a run there is no marker.\<close>

lemma no_marker_inside_run:
  assumes "sorted_wrt (<) ((p::int) # ms)" and "(a, b) \<in> set (zip (p # butlast ms) ms)"
    and "k \<in> set (p # ms)"
  shows "k \<le> a \<or> b \<le> k"
  using assms
proof (induction ms arbitrary: p)
  case Nil
  then show ?case by simp
next
  case (Cons m ms)
  have z: "zip (p # butlast (m # ms)) (m # ms) = (p, m) # zip (m # butlast ms) ms"
    by (cases ms) simp_all
  from Cons.prems(2) have "(a, b) = (p, m) \<or> (a, b) \<in> set (zip (m # butlast ms) ms)"
    unfolding z by simp
  then show ?case
  proof
    assume "(a, b) = (p, m)"
    with Cons.prems(1,3) show ?thesis by auto
  next
    assume in_rest: "(a, b) \<in> set (zip (m # butlast ms) ms)"
    from Cons.prems(1) have s: "sorted_wrt (<) (m # ms)" by simp
    show ?thesis
    proof (cases "k = p")
      case True
      from in_rest have "a \<in> set (m # butlast ms)" by (rule set_zip_leftD)
      then have "a \<in> set (m # ms)" by (auto dest: in_set_butlastD)
      with Cons.prems(1) True show ?thesis by auto
    next
      case False
      with Cons.prems(3) have "k \<in> set (m # ms)" by simp
      from Cons.IH [OF s in_rest this] show ?thesis .
    qed
  qed
qed

lemma runs_increasing:
  assumes "sorted_wrt (<) ((p::int) # ms)" and "(a, b) \<in> set (zip (p # butlast ms) ms)"
  shows "a < b \<and> a \<in> set (p # ms) \<and> b \<in> set ms"
  using assms
proof (induction ms arbitrary: p)
  case Nil
  then show ?case by simp
next
  case (Cons m ms)
  have z: "zip (p # butlast (m # ms)) (m # ms) = (p, m) # zip (m # butlast ms) ms"
    by (cases ms) simp_all
  from Cons.prems(2) have "(a, b) = (p, m) \<or> (a, b) \<in> set (zip (m # butlast ms) ms)"
    unfolding z by simp
  then show ?case
  proof
    assume "(a, b) = (p, m)"
    with Cons.prems(1) show ?thesis by auto
  next
    assume in_rest: "(a, b) \<in> set (zip (m # butlast ms) ms)"
    from Cons.prems(1) have s: "sorted_wrt (<) (m # ms)" by simp
    from Cons.IH [OF s in_rest] show ?thesis by auto
  qed
qed

text \<open>The marker before the run that a report is about, and the lines of that run.\<close>

definition report_previous :: "report \<Rightarrow> int" where
  "report_previous r = pos_line (loc_start (loc r)) - data_max r - 1"


lemma spec_report_previous [simp]: "report_previous (spec_report th sc n (p, c)) = p"
  by (simp add: report_previous_def spec_report_def context_report_def)

lemma spec_report_end [simp]: "pos_line (loc_end (loc (spec_report th sc n (p, c)))) = c"
  by (simp add: spec_report_def context_report_def)

lemma Program_exit_report:
  assumes "r \<in> set (Program_exit th sc T)"
  obtains p c where "r = spec_report th sc (int (length (allLines sc))) (p, c)"
    and "(p, c) \<in> set (spec_runs (spec_markers T (allLines sc)))"
    and "run_length p c
           > spec_threshold th (spec_kind (int (length (allLines sc))) p c)"
  using assms by (auto simp: Program_exit_spec spec_violations_def)






subsection \<open>The span and the fix of a report\<close>

lemma scan_lines_last_terminator: "snd (last (scan_lines s)) = []"
proof (induction s rule: scan_lines_cases)
  case Nil
  show ?case by simp
next
  case (CRLF ds)
  then show ?case by (simp add: scan_lines_CRLF scan_lines_nonempty del: scan_lines.simps)
next
  case (Break c cs)
  then show ?case by (simp add: scan_lines_break scan_lines_nonempty del: scan_lines.simps)
next
  case (Char c cs)
  obtain l t rest where sc: "scan_lines cs = (l, t) # rest"
    using scan_lines_nonempty [of cs] by (cases "scan_lines cs") auto
  with Char show ?case
    by (cases "rest = []") (simp_all add: scan_lines_char del: scan_lines.simps)
qed

lemma scan_lines_terminators:
  "k < length (scan_lines s) - 1 \<Longrightarrow> snd (scan_lines s ! k) \<noteq> []"
proof (induction s arbitrary: k rule: scan_lines_cases)
  case Nil
  then show ?case by simp
next
  case (CRLF ds)
  then show ?case
    by (cases k) (simp_all add: scan_lines_CRLF del: scan_lines.simps)
next
  case (Break c cs)
  then show ?case
    by (cases k) (simp_all add: scan_lines_break del: scan_lines.simps)
next
  case (Char c cs)
  obtain l t rest where sc: "scan_lines cs = (l, t) # rest"
    using scan_lines_nonempty [of cs] by (cases "scan_lines cs") auto
  show ?case
  proof (cases k)
    case 0
    with Char.prems sc Char.hyps have "0 < length (scan_lines cs) - 1"
      by (simp add: scan_lines_char del: scan_lines.simps)
    from Char.IH [OF this] sc Char.hyps 0 show ?thesis
      by (simp add: scan_lines_char del: scan_lines.simps)
  next
    case (Suc k')
    with Char.prems sc Char.hyps have "Suc k' < length (scan_lines cs) - 1"
      by (simp add: scan_lines_char del: scan_lines.simps)
    from Char.IH [OF this] sc Char.hyps Suc show ?thesis
      by (simp add: scan_lines_char del: scan_lines.simps)
  qed
qed

text \<open>The offset at which line \<open>k\<close> (counted from 1) of a text starts.\<close>

definition line_start :: "jsstring \<Rightarrow> int \<Rightarrow> nat" where
  "line_start s k = length (join_lines (take (nat (k - 1)) (scan_lines s)))"

lemma join_lines_take_Suc:
  "k < length ps \<Longrightarrow>
   join_lines (take (Suc k) ps) = join_lines (take k ps) @ fst (ps ! k) @ snd (ps ! k)"
  by (simp add: take_Suc_conv_app_nth join_lines_append join_lines_def split_beta)

lemma length_join_lines_take_le:
  "length (join_lines (take k (scan_lines s))) \<le> length s"
proof -
  have "join_lines (scan_lines s) = join_lines (take k (scan_lines s)) @ join_lines (drop k (scan_lines s))"
    by (simp add: join_lines_append [symmetric])
  then have "length (join_lines (scan_lines s))
      = length (join_lines (take k (scan_lines s))) + length (join_lines (drop k (scan_lines s)))"
    by (metis length_append)
  then show ?thesis by (simp add: join_scan_lines)
qed

lemma getIndexFromLoc_line_start:
  assumes "1 \<le> k" and "k \<le> int (length (scan_lines s))"
  shows "getIndexFromLoc (SourceCode s) k 0 = Inr (line_start s k)"
proof -
  let ?ps = "scan_lines s"
  let ?starts = "lineStartIndices (SourceCode s)"
  have len: "length ?starts = length ?ps"
    by (simp add: SourceCode_def Let_def)
  have nth: "?starts ! j = length (join_lines (take j ?ps))" if "j < length ?ps" for j
    using that by (simp add: SourceCode_def Let_def)
  from assms have k1: "nat (k - 1) < length ?ps" by simp
  have start: "?starts ! nat (k - 1) = line_start s k"
    using nth [OF k1] by (simp add: line_start_def)
  show ?thesis
  proof (cases "k = int (length ?ps)")
    case True
    have "line_start s k \<le> length s"
      unfolding line_start_def by (rule length_join_lines_take_le)
    moreover have "src_text (SourceCode s) = s"
      by (simp add: SourceCode_def Let_def)
    ultimately show ?thesis
      using True assms start scan_lines_nonempty [of s]
      by (simp add: getIndexFromLoc_def Let_def len)
  next
    case False
    with assms have lt: "nat k < length ?ps" by simp
    from assms lt have "nat (k - 1) < length ?ps - 1" by simp
    then have t: "snd (?ps ! nat (k - 1)) \<noteq> []" by (rule scan_lines_terminators)
    have "Suc (nat (k - 1)) = nat k" using assms by simp
    with join_lines_take_Suc [OF k1]
    have "join_lines (take (nat k) ?ps)
            = join_lines (take (nat (k - 1)) ?ps) @ fst (?ps ! nat (k - 1)) @ snd (?ps ! nat (k - 1))"
      by simp
    with t have "line_start s k < length (join_lines (take (nat k) ?ps))"
      by (simp add: line_start_def)
    with nth [OF lt] have "line_start s k < ?starts ! nat k" by simp
    with False assms start lt show ?thesis
      by (simp add: getIndexFromLoc_def Let_def len)
  qed
qed

lemma optional_property_nonneg:
  "optional_property kvs k = Some (Some e) \<Longrightarrow> 0 \<le> e"
  by (auto simp: optional_property_def integer_minimum0_def split: option.splits json.splits if_splits)

lemma validated_thresholds_nonneg:
  assumes "validate_options raw = Some options"
  shows "0 \<le> th_max (create options) \<and> 0 \<le> th_maxEOF (create options)
       \<and> 0 \<le> th_maxBOF (create options)"
  using validate_options_cases [OF assms]
  by (auto simp: create_def split: option.splits dest: optional_property_nonneg)

lemma spec_threshold_nonneg:
  "0 \<le> th_max th \<and> 0 \<le> th_maxEOF th \<and> 0 \<le> th_maxBOF th \<Longrightarrow> 0 \<le> spec_threshold th k"
  by (cases k) (simp_all add: spec_threshold_def)

lemma src_lines_SourceCode: "src_lines (SourceCode s) = map fst (scan_lines s)"
  by (simp add: SourceCode_def Let_def)

lemma src_text_SourceCode: "src_text (SourceCode s) = s"
  by (simp add: SourceCode_def Let_def)

lemma allLines_SourceCode:
  "allLines (SourceCode s) =
     (if fst (last (scan_lines s)) = [] then butlast (map fst (scan_lines s))
      else map fst (scan_lines s))"
  using scan_lines_nonempty [of s]
  by (simp add: allLines_def src_lines_SourceCode Let_def last_map)

lemma length_allLines_le: "length (allLines (SourceCode s)) \<le> length (scan_lines s)"
  by (simp add: allLines_SourceCode)

text \<open>The physical lines after the lines that the rule looks at hold no text.\<close>

lemma join_lines_beyond_allLines:
  "join_lines (drop (length (allLines (SourceCode s))) (scan_lines s)) = []"
proof (cases "fst (last (scan_lines s)) = []")
  case True
  let ?ps = "scan_lines s"
  have ne: "?ps \<noteq> []" by (rule scan_lines_nonempty)
  have "length (allLines (SourceCode s)) = length ?ps - 1"
    using True by (simp add: allLines_SourceCode)
  moreover have "drop (length ?ps - 1) ?ps = [last ?ps]"
    using ne by (metis append_butlast_last_id append_eq_conv_conj length_butlast)
  moreover have "last ?ps = ([], [])"
    using True scan_lines_last_terminator [of s] by (simp add: prod_eq_iff)
  ultimately show ?thesis by (simp add: join_lines_def)
next
  case False
  then show ?thesis by (simp add: allLines_SourceCode join_lines_def)
qed

lemma violation_bounds:
  assumes "(p, c) \<in> set (spec_violations th (int (length ls)) (spec_markers T ls))"
    and "0 \<le> spec_threshold th (spec_kind (int (length ls)) p c)"
  shows "0 \<le> p \<and> p + 1 < c \<and> c \<le> int (length ls) + 1
       \<and> spec_threshold th (spec_kind (int (length ls)) p c) < c - p - 1"
proof -
  let ?ms = "spec_markers T ls"
  from assms(1) have pc: "(p, c) \<in> set (zip (0 # butlast ?ms) ?ms)"
    and gt: "spec_threshold th (spec_kind (int (length ls)) p c) < c - p - 1"
    by (auto simp: spec_violations_def spec_runs_def run_length_def)
  have srt: "sorted_wrt (<) (0 # ?ms)"
    using sorted_spec_markers [of T ls] spec_markers_positive [of _ T ls] by auto
  from runs_increasing [OF srt pc] have "p \<in> set (0 # ?ms)" "c \<in> set ?ms" by simp_all
  then have "0 \<le> p" "c \<le> int (length ls) + 1"
    by (auto simp: set_spec_markers)
  with gt assms(2) show ?thesis by simp
qed

lemma join_lines_split_range:
  assumes "a \<le> b"
  shows "length (join_lines (take a ps)) \<le> length (join_lines (take b ps))"
    and "take (length (join_lines (take b ps)) - length (join_lines (take a ps)))
           (drop (length (join_lines (take a ps))) (join_lines ps))
         = join_lines (take (b - a) (drop a ps))"
    and "take (length (join_lines (take a ps))) (join_lines ps)
           @ drop (length (join_lines (take b ps))) (join_lines ps)
         = join_lines (take a ps) @ join_lines (drop b ps)"
proof -
  have tb: "take b ps = take a ps @ take (b - a) (drop a ps)"
    using assms by (metis le_add_diff_inverse take_add)
  have jb: "join_lines (take b ps) = join_lines (take a ps) @ join_lines (take (b - a) (drop a ps))"
    by (simp add: tb join_lines_append)
  show "length (join_lines (take a ps)) \<le> length (join_lines (take b ps))"
    by (simp add: jb)
  have ja: "join_lines ps = join_lines (take a ps) @ join_lines (drop a ps)"
    by (simp add: join_lines_append [symmetric])
  have jd: "join_lines (drop a ps)
              = join_lines (take (b - a) (drop a ps)) @ join_lines (drop b ps)"
  proof -
    have "drop a ps = take (b - a) (drop a ps) @ drop (b - a) (drop a ps)"
      by (rule append_take_drop_id [symmetric])
    also have "drop (b - a) (drop a ps) = drop b ps" using assms by simp
    finally have "drop a ps = take (b - a) (drop a ps) @ drop b ps" .
    then show ?thesis by (metis join_lines_append)
  qed
  have d: "drop (length (join_lines (take a ps))) (join_lines ps) = join_lines (drop a ps)"
    by (subst ja) simp
  show "take (length (join_lines (take b ps)) - length (join_lines (take a ps)))
           (drop (length (join_lines (take a ps))) (join_lines ps))
         = join_lines (take (b - a) (drop a ps))"
    unfolding d by (simp add: jb jd)
  have jall: "join_lines ps = join_lines (take b ps) @ join_lines (drop b ps)"
    by (simp add: join_lines_append [symmetric])
  have "take (length (join_lines (take a ps))) (join_lines ps) = join_lines (take a ps)"
    by (subst ja) simp
  moreover have "drop (length (join_lines (take b ps))) (join_lines ps) = join_lines (drop b ps)"
    by (subst jall) simp
  ultimately show "take (length (join_lines (take a ps))) (join_lines ps)
           @ drop (length (join_lines (take b ps))) (join_lines ps)
         = join_lines (take a ps) @ join_lines (drop b ps)"
    by simp
qed

text \<open>
  C2, as stated, fails: with \<^verbatim>\<open>max = 1\<close> and two blank lines after line 1, the first line
  in excess is line 3, which starts at offset 4, but the range of the fix starts at
  offset 2, the start of line 2; the fix deletes line 2 and keeps line 3.
\<close>

theorem fix_range_counterexample:
  "map_sum id (map (\<lambda>r. (loc_start (loc r), rep_fix r)))
     (no_multiple_empty_lines [JObject [(''max'', JInteger 1)]] []
        (js ''a\<newline> \<newline>  \<newline>b\<newline>''))
     = Inr [(\<lparr> pos_line = 3, pos_column = 0 \<rparr>, Inr (removeRange 2 4))]
   \<and> getIndexFromLoc (SourceCode (js ''a\<newline> \<newline>  \<newline>b\<newline>'')) 3 0 = Inr 4
   \<and> apply_fix (js ''a\<newline> \<newline>  \<newline>b\<newline>'') (removeRange 2 4)
     = js ''a\<newline>  \<newline>b\<newline>''"
  by code_simp

lemma violation_report_and_fix:
  assumes "validate_options raw = Some options"
    and "(p, c) \<in> set (spec_violations (create options)
                         (int (length (allLines (SourceCode s))))
                         (line_markers (SourceCode s) tl_lines))"
  shows "let th = create options; sc = SourceCode s;
             n = int (length (allLines sc));
             t = spec_threshold th (spec_kind n p c);
             r = spec_report th sc n (p, c);
             rs = line_start s (p + 1);
             re = (if c - t \<le> n then line_start s (c - t) else length s)
         in r \<in> set (Program_exit th sc tl_lines)
          \<and> loc r = \<lparr> loc_start = \<lparr> pos_line = p + t + 1, pos_column = 0 \<rparr>,
                       loc_end = \<lparr> pos_line = c, pos_column = 0 \<rparr> \<rparr>
          \<and> rep_fix r = Inr (removeRange rs re)
          \<and> rs \<le> re \<and> re \<le> length s
          \<and> take (re - rs) (drop rs s)
              = join_lines (take (nat (run_length p c - t)) (drop (nat p) (scan_lines s)))
          \<and> apply_fix s (removeRange rs re)
              = join_lines (take (nat p) (scan_lines s))
                @ join_lines (drop (nat (c - t - 1)) (scan_lines s))"
proof -
  define th where "th = create options"
  define sc where "sc = SourceCode s"
  define n where "n = int (length (allLines sc))"
  define t where "t = spec_threshold th (spec_kind n p c)"
  define r where "r = spec_report th sc n (p, c)"
  define rs where "rs = line_start s (p + 1)"
  define re where "re = (if c - t \<le> n then line_start s (c - t) else length s)"
  define ps where "ps = scan_lines s"
  define a where "a = nat p"
  define b where "b = nat (c - t - 1)"
  have viol: "(p, c) \<in> set (spec_violations th n (spec_markers tl_lines (allLines sc)))"
    using assms(2) by (simp add: th_def sc_def n_def line_markers_spec)
  have t0: "0 \<le> t"
    unfolding t_def th_def
    by (rule spec_threshold_nonneg) (rule validated_thresholds_nonneg [OF assms(1)])
  from violation_bounds [OF viol [unfolded n_def] t0 [unfolded t_def n_def]]
  have bnd: "0 \<le> p" "p + 1 < c" "c \<le> n + 1" "t < c - p - 1"
    by (simp_all add: n_def t_def)
  have n_le: "n \<le> int (length ps)"
    unfolding n_def sc_def ps_def using length_allLines_le [of s] by simp
  have ab: "a \<le> b" using bnd t0 by (simp add: a_def b_def)
  have s_join: "join_lines ps = s" by (simp add: ps_def join_scan_lines)
  have member: "r \<in> set (Program_exit th sc tl_lines)"
    using viol by (simp add: Program_exit_spec r_def n_def)
  have loc_r: "loc r = \<lparr> loc_start = \<lparr> pos_line = p + t + 1, pos_column = 0 \<rparr>,
                       loc_end = \<lparr> pos_line = c, pos_column = 0 \<rparr> \<rparr>"
    by (simp add: r_def spec_report_def context_report_def t_def)
  have rs_idx: "getIndexFromLoc sc (p + 1) 0 = Inr rs"
    unfolding sc_def rs_def
    using bnd n_le by (intro getIndexFromLoc_line_start) (simp_all add: ps_def)
  have re_idx: "getIndexFromLoc sc (c - t) 0 = Inr (line_start s (c - t))" if "c - t \<le> n"
    unfolding sc_def
    using bnd n_le that by (intro getIndexFromLoc_line_start) (simp_all add: ps_def)
  have fix_r: "rep_fix r = Inr (removeRange rs re)"
    using rs_idx re_idx
    by (simp add: r_def spec_report_def context_report_def fix_callback_def t_def [symmetric]
          re_def Let_def sc_def src_text_SourceCode)
  have rs_len: "rs = length (join_lines (take a ps))"
    using bnd by (simp add: rs_def line_start_def a_def ps_def)
  have re_len: "re = length (join_lines (take b ps))"
  proof (cases "c - t \<le> n")
    case True
    have "nat (c - t - 1) = b" by (simp add: b_def)
    with True show ?thesis
      by (simp add: re_def line_start_def ps_def)
  next
    case False
    with bnd t0 have "b = nat n" by (simp add: b_def)
    then have bn: "b = length (allLines (SourceCode s))" by (simp add: n_def sc_def)
    have "join_lines ps = join_lines (take b ps) @ join_lines (drop b ps)"
      by (simp add: join_lines_append [symmetric])
    moreover have "join_lines (drop b ps) = []"
      unfolding bn ps_def by (rule join_lines_beyond_allLines)
    ultimately have "length s = length (join_lines (take b ps))"
      using s_join by simp
    with False show ?thesis by (simp add: re_def)
  qed
  have le: "rs \<le> re"
    unfolding rs_len re_len by (rule join_lines_split_range(1) [OF ab])
  have re_s: "re \<le> length s"
    unfolding re_len ps_def by (rule length_join_lines_take_le)
  have "b - a = nat (run_length p c - t)"
    using bnd t0 by (simp add: a_def b_def run_length_def)
  with join_lines_split_range(2) [OF ab, of ps]
  have removed: "take (re - rs) (drop rs s)
      = join_lines (take (nat (run_length p c - t)) (drop (nat p) (scan_lines s)))"
    by (simp add: rs_len re_len join_scan_lines a_def ps_def)
  from join_lines_split_range(3) [OF ab, of ps]
  have applied: "apply_fix s (removeRange rs re)
      = join_lines (take (nat p) (scan_lines s))
        @ join_lines (drop (nat (c - t - 1)) (scan_lines s))"
    by (simp add: apply_fix_def removeRange_def rs_len re_len join_scan_lines a_def b_def ps_def)
  from member loc_r fix_r le re_s removed applied
  show ?thesis
    unfolding Let_def th_def [symmetric] sc_def [symmetric] n_def [symmetric]
      t_def [symmetric] r_def [symmetric] rs_def [symmetric] re_def [symmetric]
    by simp
qed

text \<open>
  C2, amended. For every run whose length exceeds its threshold the rule makes one
  report, from line \<open>previous + threshold + 1\<close>, column 0, to the next marker line,
  column 0. Its fix deletes the raw text from the start of the first blank line of the
  run, line \<open>previous + 1\<close>, to the start of line \<open>current - threshold\<close>, or to the end of
  the text when that line lies behind the last line: the first
  \<open>run length - threshold\<close> lines of the run with their terminators.
\<close>

theorem report_span_and_fix:
  assumes "validate_options raw = Some options"
    and "(p, c) \<in> set (spec_violations (create options)
                         (int (length (allLines (SourceCode s))))
                         (line_markers (SourceCode s) tl_lines))"
  shows "let th = create options; sc = SourceCode s;
             n = int (length (allLines sc));
             t = spec_threshold th (spec_kind n p c);
             r = spec_report th sc n (p, c);
             rs = line_start s (p + 1);
             re = (if c - t \<le> n then line_start s (c - t) else length s)
         in r \<in> set (Program_exit th sc tl_lines)
          \<and> loc r = \<lparr> loc_start = \<lparr> pos_line = p + t + 1, pos_column = 0 \<rparr>,
                       loc_end = \<lparr> pos_line = c, pos_column = 0 \<rparr> \<rparr>
          \<and> rep_fix r = Inr (removeRange rs re)
          \<and> rs \<le> re \<and> re \<le> length s
          \<and> take (re - rs) (drop rs s)
              = join_lines (take (nat (run_length p c - t)) (drop (nat p) (scan_lines s)))
          \<and> apply_fix s (removeRange rs re)
              = join_lines (take (nat p) (scan_lines s))
                @ join_lines (drop (nat (c - t - 1)) (scan_lines s))"
  using assms by (rule violation_report_and_fix)

theorem report_span_and_fix_witness:
  "validate_options [JObject [(''max'', JInteger 1)]]
     = Some [\<lparr> opt_max = 1, opt_maxEOF = None, opt_maxBOF = None \<rparr>]
   \<and> (1, 4) \<in> set (spec_violations
                      (create [\<lparr> opt_max = 1, opt_maxEOF = None, opt_maxBOF = None \<rparr>])
                      (int (length (allLines (SourceCode (js ''a\<newline> \<newline>  \<newline>b\<newline>'')))))
                      (line_markers (SourceCode (js ''a\<newline> \<newline>  \<newline>b\<newline>'')) {}))
   \<and> (let th = create [\<lparr> opt_max = 1, opt_maxEOF = None, opt_maxBOF = None \<rparr>];
           sc = SourceCode (js ''a\<newline> \<newline>  \<newline>b\<newline>'');
           n = int (length (allLines sc));
           t = spec_threshold th (spec_kind n 1 4);
           r = spec_report th sc n (1, 4);
           rs = line_start (js ''a\<newline> \<newline>  \<newline>b\<newline>'') (1 + 1);
           re = (if 4 - t \<le> n then line_start (js ''a\<newline> \<newline>  \<newline>b\<newline>'') (4 - t)
                 else length (js ''a\<newline> \<newline>  \<newline>b\<newline>''))
       in r \<in> set (Program_exit th sc {})
          \<and> loc r = \<lparr> loc_start = \<lparr> pos_line = 1 + t + 1, pos_column = 0 \<rparr>,
                       loc_end = \<lparr> pos_line = 4, pos_column = 0 \<rparr> \<rparr>
          \<and> rep_fix r = Inr (removeRange rs re)
          \<and> rs \<le> re \<and> re \<le> length (js ''a\<newline> \<newline>  \<newline>b\<newline>'')
          \<and> take (re - rs) (drop rs (js ''a\<newline> \<newline>  \<newline>b\<newline>''))
              = join_lines (take (nat (run_length 1 4 - t))
                  (drop (nat 1) (scan_lines (js ''a\<newline> \<newline>  \<newline>b\<newline>''))))
          \<and> apply_fix (js ''a\<newline> \<newline>  \<newline>b\<newline>'') (removeRange rs re)
              = join_lines (take (nat 1) (scan_lines (js ''a\<newline> \<newline>  \<newline>b\<newline>'')))
                @ join_lines (drop (nat (4 - t - 1)) (scan_lines (js ''a\<newline> \<newline>  \<newline>b\<newline>''))))"
proof -
  have v: "validate_options [JObject [(''max'', JInteger 1)]]
     = Some [\<lparr> opt_max = 1, opt_maxEOF = None, opt_maxBOF = None \<rparr>]"
    by code_simp
  have m: "(1, 4) \<in> set (spec_violations
                      (create [\<lparr> opt_max = 1, opt_maxEOF = None, opt_maxBOF = None \<rparr>])
                      (int (length (allLines (SourceCode (js ''a\<newline> \<newline>  \<newline>b\<newline>'')))))
                      (line_markers (SourceCode (js ''a\<newline> \<newline>  \<newline>b\<newline>'')) {}))"
    by code_simp
  from v m report_span_and_fix [OF v m]
  show ?thesis by (intro conjI)
qed

subsection \<open>Scanning a corrected text\<close>

declare scan_lines.simps [simp del]

lemma scan_lines_Nil [simp]: "scan_lines [] = [([], [])]"
  by (simp add: scan_lines.simps)

lemma scan_lines_drop:
  "k < length (scan_lines s) \<Longrightarrow>
   scan_lines (join_lines (drop k (scan_lines s))) = drop k (scan_lines s)"
proof (induction s arbitrary: k rule: scan_lines_cases)
  case Nil
  then show ?case by (simp add: join_lines_def)
next
  case (CRLF ds)
  show ?case
  proof (cases k)
    case 0
    then show ?thesis by (simp add: join_scan_lines)
  next
    case (Suc k')
    with CRLF show ?thesis by (simp add: scan_lines_CRLF)
  qed
next
  case (Break c cs)
  show ?case
  proof (cases k)
    case 0
    then show ?thesis by (simp add: join_scan_lines)
  next
    case (Suc k')
    with Break show ?thesis by (simp add: scan_lines_break)
  qed
next
  case (Char c cs)
  obtain l t rest where sc: "scan_lines cs = (l, t) # rest"
    using scan_lines_nonempty [of cs] by (cases "scan_lines cs") auto
  show ?case
  proof (cases k)
    case 0
    then show ?thesis by (simp add: join_scan_lines)
  next
    case (Suc k')
    with Char.prems Char.hyps sc have "Suc k' < length (scan_lines cs)"
      by (simp add: scan_lines_char)
    from Char.IH [OF this] Suc Char.hyps sc show ?thesis
      by (simp add: scan_lines_char)
  qed
qed

text \<open>Scanning a text that starts with complete lines of another text: the lines are
  found again, except that a final CR joins a following LF.\<close>

definition rejoin :: "phys_line list \<Rightarrow> jsstring \<Rightarrow> phys_line list" where
  "rejoin ps rest =
     (if ps \<noteq> [] \<and> snd (last ps) = [CR] \<and> (\<exists>rest'. rest = LF # rest')
      then butlast ps @ [(fst (last ps), [CR, LF])] @ scan_lines (tl rest)
      else ps @ scan_lines rest)"

lemma rejoin_Nil [simp]: "rejoin [] rest = scan_lines rest"
  by (simp add: rejoin_def)

lemma rejoin_Cons: "xs \<noteq> [] \<Longrightarrow> rejoin (x # xs) rest = x # rejoin xs rest"
  by (auto simp: rejoin_def)

lemma rejoin_single:
  "snd x \<noteq> [CR] \<Longrightarrow> rejoin [x] rest = x # scan_lines rest"
  by (simp add: rejoin_def)

lemma rejoin_prepend:
  "rejoin ((c # l, t) # xs) rest
     = (c # fst (hd (rejoin ((l, t) # xs) rest)), snd (hd (rejoin ((l, t) # xs) rest)))
       # tl (rejoin ((l, t) # xs) rest)"
  by (cases "xs = []") (auto simp: rejoin_def)

lemma CR_LF_distinct [simp]: "CR \<noteq> LF" "LF \<noteq> CR"
  by (simp_all add: CR_def LF_def)

lemma is_linebreak_LF [simp]: "is_linebreak LF"
  by (simp add: is_linebreak_def)

lemma is_linebreak_CR [simp]: "is_linebreak CR"
  by (simp add: is_linebreak_def)

lemma join_lines_take_nonempty:
  assumes "0 < k" and "k < length (scan_lines s)"
  shows "\<exists>x xs rest. join_lines (take k (scan_lines s)) = x # xs \<and> s = x # rest"
proof -
  let ?ps = "scan_lines s"
  from assms have "0 < length ?ps - 1" by simp
  then have t: "snd (?ps ! 0) \<noteq> []" by (rule scan_lines_terminators)
  obtain p ps' where ps: "?ps = p # ps'" using assms by (cases ?ps) auto
  obtain k' where k: "k = Suc k'" using assms by (cases k) auto
  have "join_lines (take k ?ps) = fst p @ snd p @ join_lines (take k' ps')"
    by (simp add: ps k join_lines_def split_beta)
  moreover from t ps have "snd p \<noteq> []" by simp
  ultimately have ne: "join_lines (take k ?ps) \<noteq> []" by simp
  have "s = join_lines (take k ?ps) @ join_lines (drop k ?ps)"
    by (simp add: join_lines_append [symmetric] join_scan_lines)
  with ne show ?thesis
    by (cases "join_lines (take k ?ps)") auto
qed

lemma scan_lines_prefix:
  "k < length (scan_lines s) \<Longrightarrow>
   scan_lines (join_lines (take k (scan_lines s)) @ rest) = rejoin (take k (scan_lines s)) rest"
proof (induction s arbitrary: k rule: scan_lines_cases)
  case Nil
  then show ?case by (simp add: join_lines_def)
next
  case (CRLF ds)
  show ?case
  proof (cases k)
    case 0
    then show ?thesis by (simp add: join_lines_def)
  next
    case (Suc k')
    with CRLF.prems have k': "k' < length (scan_lines ds)" by (simp add: scan_lines_CRLF)
    have "scan_lines (join_lines (take k (scan_lines (CR # LF # ds))) @ rest)
        = ([], [CR, LF]) # scan_lines (join_lines (take k' (scan_lines ds)) @ rest)"
      by (simp add: Suc scan_lines_CRLF join_lines_Cons)
    also have "\<dots> = ([], [CR, LF]) # rejoin (take k' (scan_lines ds)) rest"
      by (simp add: CRLF.IH [OF k'])
    also have "\<dots> = rejoin (([], [CR, LF]) # take k' (scan_lines ds)) rest"
    proof (cases "take k' (scan_lines ds) = []")
      case True
      have "rejoin [([], [CR, LF])] rest = ([], [CR, LF]) # scan_lines rest"
        by (rule rejoin_single) simp
      then show ?thesis unfolding True by simp
    next
      case False
      then show ?thesis by (rule rejoin_Cons [symmetric])
    qed
    finally show ?thesis by (simp add: Suc scan_lines_CRLF)
  qed
next
  case (Break c cs)
  show ?case
  proof (cases k)
    case 0
    then show ?thesis by (simp add: join_lines_def)
  next
    case (Suc k')
    with Break.prems Break.hyps have k': "k' < length (scan_lines cs)"
      by (simp add: scan_lines_break)
    have tk: "take k (scan_lines (c # cs)) = ([], [c]) # take k' (scan_lines cs)"
      using Break.hyps by (simp add: Suc scan_lines_break)
    show ?thesis
    proof (cases "k' = 0")
      case True
      with tk have t1: "take k (scan_lines (c # cs)) = [([], [c])]" by simp
      show ?thesis
      proof (cases "c = CR \<and> (\<exists>rest'. rest = LF # rest')")
        case True
        then obtain rest' where "rest = LF # rest'" "c = CR" by auto
        then show ?thesis
          unfolding t1 by (simp add: join_lines_def rejoin_def scan_lines_CRLF)
      next
        case False
        with Break.hyps(1) have "scan_lines (c # rest) = ([], [c]) # scan_lines rest"
          by (intro scan_lines_break) auto
        with False show ?thesis
          unfolding t1 by (auto simp: join_lines_def rejoin_def)
      qed
    next
      case False
      then have "0 < k'" by simp
      from join_lines_take_nonempty [OF this k']
      obtain x xs cs' where j: "join_lines (take k' (scan_lines cs)) = x # xs" and cs: "cs = x # cs'"
        by blast
      from Break.hyps(2) cs have "\<not> (c = CR \<and> x = LF)" by simp
      with Break.hyps(1)
      have "scan_lines (c # (x # xs) @ rest) = ([], [c]) # scan_lines ((x # xs) @ rest)"
        by (intro scan_lines_break) auto
      then have "scan_lines (join_lines (take k (scan_lines (c # cs))) @ rest)
          = ([], [c]) # scan_lines (join_lines (take k' (scan_lines cs)) @ rest)"
        by (simp add: tk join_lines_Cons j)
      also have "\<dots> = ([], [c]) # rejoin (take k' (scan_lines cs)) rest"
        by (simp add: Break.IH [OF k'])
      also have "\<dots> = rejoin (([], [c]) # take k' (scan_lines cs)) rest"
      proof (rule rejoin_Cons [symmetric])
        from \<open>0 < k'\<close> scan_lines_nonempty [of cs]
        show "take k' (scan_lines cs) \<noteq> []" by simp
      qed
      finally show ?thesis by (simp add: tk)
    qed
  qed
next
  case (Char c cs)
  obtain l t rs where sc: "scan_lines cs = (l, t) # rs"
    using scan_lines_nonempty [of cs] by (cases "scan_lines cs") auto
  have sc': "scan_lines (c # cs) = (c # l, t) # rs"
    using Char.hyps sc by (simp add: scan_lines_char)
  show ?case
  proof (cases k)
    case 0
    then show ?thesis by (simp add: join_lines_def)
  next
    case (Suc k')
    with Char.prems sc' sc have k: "k < length (scan_lines cs)" by simp
    have tk: "take k (scan_lines (c # cs)) = (c # l, t) # take k' rs"
      by (simp add: Suc sc')
    have tk0: "take k (scan_lines cs) = (l, t) # take k' rs"
      by (simp add: Suc sc)
    have "scan_lines (join_lines (take k (scan_lines (c # cs))) @ rest)
        = scan_lines (c # (join_lines (take k (scan_lines cs)) @ rest))"
      by (simp add: tk tk0 join_lines_Cons)
    also have "\<dots> = (c # fst (hd (rejoin (take k (scan_lines cs)) rest)),
                     snd (hd (rejoin (take k (scan_lines cs)) rest)))
                    # tl (rejoin (take k (scan_lines cs)) rest)"
      using Char.hyps by (simp add: scan_lines_char Char.IH [OF k])
    also have "\<dots> = rejoin ((c # l, t) # take k' rs) rest"
      unfolding tk0 by (rule rejoin_prepend [symmetric])
    finally show ?thesis by (simp add: tk)
  qed
qed

definition without_final_empty :: "jsstring list \<Rightarrow> jsstring list" where
  "without_final_empty ls = (if ls \<noteq> [] \<and> last ls = [] then butlast ls else ls)"

lemma allLines_without_final_empty: "allLines sc = without_final_empty (src_lines sc)"
  by (simp add: allLines_def without_final_empty_def Let_def)

lemma without_final_empty_append:
  "ys \<noteq> [] \<Longrightarrow> without_final_empty (xs @ ys) = xs @ without_final_empty ys"
  by (simp add: without_final_empty_def butlast_append)

lemma without_final_empty_drop:
  "k < length ls \<Longrightarrow> without_final_empty (drop k ls) = drop k (without_final_empty ls)"
  by (simp add: without_final_empty_def butlast_drop)

lemma without_final_empty_take:
  "k \<le> length (without_final_empty ls) \<Longrightarrow> take k (without_final_empty ls) = take k ls"
  by (auto simp: without_final_empty_def butlast_conv_take min_def split: if_splits)

lemma length_without_final_empty:
  "length ls \<le> Suc (length (without_final_empty ls))"
  by (simp add: without_final_empty_def)

lemma allLines_SourceCode_lines:
  "allLines (SourceCode s) = without_final_empty (map fst (scan_lines s))"
  by (simp add: allLines_without_final_empty src_lines_SourceCode)

text \<open>The lines that the rule looks at after a removal of whole lines: the same lines
  without the removed ones, and without one more line where a CR and an LF meet.\<close>

lemma allLines_after_removal:
  assumes "a < b" and "b \<le> length (allLines (SourceCode s))"
  shows "\<exists>b'. b \<le> b' \<and> b' \<le> Suc b \<and> b' \<le> length (allLines (SourceCode s))
           \<and> (b' = Suc b \<longrightarrow> allLines (SourceCode s) ! b = [])
           \<and> allLines (SourceCode (join_lines (take a (scan_lines s))
                                    @ join_lines (drop b (scan_lines s))))
               = take a (allLines (SourceCode s)) @ drop b' (allLines (SourceCode s))"
proof -
  let ?ps = "scan_lines s"
  let ?L = "map fst ?ps"
  let ?A = "allLines (SourceCode s)"
  let ?s' = "join_lines (take a ?ps) @ join_lines (drop b ?ps)"
  have A: "?A = without_final_empty ?L" by (rule allLines_SourceCode_lines)
  have nm: "length ?A \<le> length ?ps" using length_allLines_le [of s] .
  from assms nm have a_m: "a < length ?ps" by simp
  from assms have a_n: "a \<le> length ?A" by simp
  have take_a: "take a ?L = take a ?A"
    using without_final_empty_take [of a ?L] a_n by (simp add: A)
  show ?thesis
  proof (cases "b = length ?A")
    case True
    have "join_lines (drop b ?ps) = []"
      unfolding True by (rule join_lines_beyond_allLines)
    then have "scan_lines ?s' = rejoin (take a ?ps) []"
      using scan_lines_prefix [OF a_m, of "[]"] by simp
    then have "scan_lines ?s' = take a ?ps @ [([], [])]"
      by (simp add: rejoin_def)
    then have "map fst (scan_lines ?s') = take a ?L @ [[]]"
      by (simp add: take_map)
    then have "allLines (SourceCode ?s') = take a ?L"
      by (simp add: allLines_SourceCode_lines without_final_empty_def)
    with True take_a have "allLines (SourceCode ?s') = take a ?A @ drop b ?A" by simp
    with True show ?thesis by (intro exI [of _ b]) simp
  next
    case False
    with assms have b_n: "b < length ?A" by simp
    with nm have b_m: "b < length ?ps" by simp
    let ?rest = "join_lines (drop b ?ps)"
    have rest: "scan_lines ?rest = drop b ?ps" using b_m by (rule scan_lines_drop)
    have scan': "scan_lines ?s' = rejoin (take a ?ps) ?rest"
      using a_m by (rule scan_lines_prefix)
    show ?thesis
    proof (cases "take a ?ps \<noteq> [] \<and> snd (last (take a ?ps)) = [CR] \<and> (\<exists>rest'. ?rest = LF # rest')")
      case False
      then have "rejoin (take a ?ps) ?rest = take a ?ps @ scan_lines ?rest"
        by (auto simp: rejoin_def)
      with scan' rest have "scan_lines ?s' = take a ?ps @ drop b ?ps"
        by simp
      then have "map fst (scan_lines ?s') = take a ?L @ drop b ?L"
        by (simp add: take_map drop_map)
      moreover have "drop b ?L \<noteq> []" using b_m by simp
      ultimately have "allLines (SourceCode ?s') = take a ?L @ without_final_empty (drop b ?L)"
        by (simp add: allLines_SourceCode_lines without_final_empty_append)
      also have "without_final_empty (drop b ?L) = drop b ?A"
        unfolding A using b_m by (intro without_final_empty_drop) simp
      finally have "allLines (SourceCode ?s') = take a ?A @ drop b ?A"
        by (simp add: take_a)
      with b_n show ?thesis by (intro exI [of _ b]) simp
    next
      case True
      then obtain rest' where r': "?rest = LF # rest'" and ne: "take a ?ps \<noteq> []" by blast
      have "scan_lines (LF # rest') = ([], [LF]) # scan_lines rest'"
        by (rule scan_lines_break) simp_all
      with rest r' have d: "drop b ?ps = ([], [LF]) # scan_lines rest'" by simp
      with Cons_nth_drop_Suc [OF b_m]
      have pb: "?ps ! b = ([], [LF])" and d': "drop (Suc b) ?ps = scan_lines rest'"
        by simp_all
      have sb_m: "Suc b < length ?ps"
        using d' scan_lines_nonempty [of rest'] by (metis drop_eq_Nil not_le_imp_less)
      have "rejoin (take a ?ps) (LF # rest')
          = butlast (take a ?ps) @ [(fst (last (take a ?ps)), [CR, LF])] @ scan_lines rest'"
        using True by (simp add: rejoin_def)
      with scan' r' d' have "scan_lines ?s'
          = butlast (take a ?ps) @ [(fst (last (take a ?ps)), [CR, LF])] @ drop (Suc b) ?ps"
        by simp
      then have "map fst (scan_lines ?s')
          = map fst (butlast (take a ?ps) @ [last (take a ?ps)]) @ drop (Suc b) ?L"
        by (simp add: drop_map)
      also have "butlast (take a ?ps) @ [last (take a ?ps)] = take a ?ps"
        using ne by simp
      finally have "map fst (scan_lines ?s') = take a ?L @ drop (Suc b) ?L"
        by (simp add: take_map)
      moreover have "drop (Suc b) ?L \<noteq> []" using sb_m by simp
      ultimately have "allLines (SourceCode ?s')
          = take a ?L @ without_final_empty (drop (Suc b) ?L)"
        by (simp add: allLines_SourceCode_lines without_final_empty_append)
      also have "without_final_empty (drop (Suc b) ?L) = drop (Suc b) ?A"
        unfolding A using sb_m by (intro without_final_empty_drop) simp
      finally have eq: "allLines (SourceCode ?s') = take a ?A @ drop (Suc b) ?A"
        by (simp add: take_a)
      have "?L ! b = []" using pb b_m by simp
      moreover have "?A ! b = ?L ! b"
        using b_n nth_take [of b "Suc b" ?A] nth_take [of b "Suc b" ?L]
          without_final_empty_take [of "Suc b" ?L]
        by (simp add: A)
      ultimately have Ab: "?A ! b = []" by simp
      have "Suc b \<le> length ?A" using b_n by simp
      with eq Ab show ?thesis by (intro exI [of _ "Suc b"]) simp
    qed
  qed
qed

text \<open>The template literal lines of the corrected text: the lines behind line \<open>p\<close> have
  moved up by \<open>d\<close> lines.\<close>

definition shift_lines :: "int \<Rightarrow> int \<Rightarrow> int set \<Rightarrow> int set" where
  "shift_lines p d tl_lines = {k \<in> tl_lines. k \<le> p} \<union> (\<lambda>k. k - d) ` {k \<in> tl_lines. p < k}"

lemma shift_lines_iff:
  "p < k \<Longrightarrow> 0 \<le> d \<Longrightarrow> k \<in> shift_lines p d T \<longleftrightarrow> k + d \<in> T"
proof
  assume pk: "p < k" and d: "0 \<le> d" and "k \<in> shift_lines p d T"
  then obtain j where "j \<in> T" "k = j - d" by (auto simp: shift_lines_def)
  then show "k + d \<in> T" by simp
next
  assume pk: "p < k" and d: "0 \<le> d" and "k + d \<in> T"
  then have "k + d \<in> {k \<in> T. p < k}" by simp
  then have "(k + d) - d \<in> (\<lambda>k. k - d) ` {k \<in> T. p < k}" by (rule imageI)
  then show "k \<in> shift_lines p d T" by (simp add: shift_lines_def)
qed

lemma sorted_zero_spec_markers: "sorted_wrt (<) (0 # spec_markers T ls)"
  using sorted_spec_markers [of T ls] spec_markers_positive [of _ T ls] by auto

lemma rescan_quiet:
  fixes A :: "jsstring list" and T :: "int set"
  assumes viol: "(p, c) \<in> set (spec_violations th (int (length A)) (spec_markers T A))"
    and t: "t = spec_threshold th (spec_kind (int (length A)) p c)"
    and b1: "c - t - 1 \<le> int b'" and b2: "int b' \<le> c - 1"
    and A': "A' = take (nat p) A @ drop b' A"
    and T': "T' = shift_lines p (int b' - p) T"
  shows "(p, c') \<notin> set (spec_violations th (int (length A')) (spec_markers T' A'))"
proof
  assume v': "(p, c') \<in> set (spec_violations th (int (length A')) (spec_markers T' A'))"
  let ?n = "int (length A)"
  let ?n' = "int (length A')"
  let ?ms = "spec_markers T A"
  let ?ms' = "spec_markers T' A'"
  define d where "d = int b' - p"
  from viol have pc: "(p, c) \<in> set (zip (0 # butlast ?ms) ?ms)" and gt: "t < c - p - 1"
    by (auto simp: spec_violations_def spec_runs_def run_length_def t)
  from runs_increasing [OF sorted_zero_spec_markers pc]
  have p_in: "p \<in> set (0 # ?ms)" and c_in: "c \<in> set ?ms" by simp_all
  from p_in have p0: "0 \<le> p" by (auto simp: set_spec_markers)
  from c_in have cn: "c \<le> ?n + 1" by (auto simp: set_spec_markers)
  from b1 gt have pb: "p < int b'" by simp
  then have d0: "0 < d" by (simp add: d_def)
  from b2 cn have bn: "b' \<le> length A" by simp
  have n': "?n' = ?n - d"
    using pb bn p0 by (simp add: A' d_def min_def)
  have blank_between: "\<not> nonblank_line T A k" if "p < k" "k < c" for k
  proof
    assume "nonblank_line T A k"
    with that p0 cn have "k \<in> set (0 # ?ms)" by (simp add: set_spec_markers)
    from no_marker_inside_run [OF sorted_zero_spec_markers pc this] that
    show False by simp
  qed
  have nb': "nonblank_line T' A' k \<longleftrightarrow> nonblank_line T A (k + d)" if "p < k" "k \<le> ?n'" for k
  proof -
    from that p0 have j: "nat p \<le> nat (k - 1)" by simp
    have lt: "length (take (nat p) A) = nat p" using pb bn by simp
    have "\<not> nat (k - 1) < length (take (nat p) A)"
      unfolding lt using j by (simp only: not_less)
    then have "A' ! nat (k - 1) = drop b' A ! (nat (k - 1) - length (take (nat p) A))"
      unfolding A' by (simp only: nth_append if_False)
    then have "A' ! nat (k - 1) = drop b' A ! (nat (k - 1) - nat p)"
      unfolding lt .
    also have "\<dots> = A ! (b' + (nat (k - 1) - nat p))"
      using bn by simp
    also have "b' + (nat (k - 1) - nat p) = nat (k + d - 1)"
      using that p0 pb by (simp add: d_def nat_eq_iff)
    finally have content: "A' ! nat (k - 1) = A ! nat (k + d - 1)" .
    have "k \<in> T' \<longleftrightarrow> k + d \<in> T"
      unfolding T' d_def [symmetric] using that(1) d0 by (intro shift_lines_iff) simp_all
    with content show ?thesis by (simp add: nonblank_line_def)
  qed
  from v' have pc': "(p, c') \<in> set (zip (0 # butlast ?ms') ?ms')"
    and gt': "spec_threshold th (spec_kind ?n' p c') < c' - p - 1"
    by (auto simp: spec_violations_def spec_runs_def run_length_def)
  from runs_increasing [OF sorted_zero_spec_markers pc']
  have pc'_lt: "p < c'" and c'_in: "c' \<in> set ?ms'" by simp_all
  have cd_gt: "p < c - d" using b2 by (simp add: d_def)
  have cd_le: "c - d \<le> ?n' + 1" using cn by (simp add: n')
  have cd_in: "c - d \<in> set ?ms'"
  proof (cases "c = ?n + 1")
    case True
    then have "c - d = ?n' + 1" by (simp add: n')
    then show ?thesis by (simp add: set_spec_markers)
  next
    case False
    with c_in have "nonblank_line T A c" and "c \<le> ?n" by (auto simp: set_spec_markers)
    then have le: "c - d \<le> ?n'" by (simp add: n')
    from nb' [OF cd_gt le] \<open>nonblank_line T A c\<close> have "nonblank_line T' A' (c - d)" by simp
    with le cd_gt p0 show ?thesis by (simp add: set_spec_markers)
  qed
  then have "c - d \<in> set (0 # ?ms')" by simp
  from no_marker_inside_run [OF sorted_zero_spec_markers pc' this] cd_gt
  have c'_le: "c' \<le> c - d" by simp
  have c'_eq: "c' = c - d"
  proof (rule ccontr)
    assume "c' \<noteq> c - d"
    with c'_le have lt: "c' < c - d" by simp
    with cd_le have le: "c' \<le> ?n'" by simp
    with c'_in have "nonblank_line T' A' c'" by (auto simp: set_spec_markers)
    with nb' [OF pc'_lt le] have "nonblank_line T A (c' + d)" by simp
    moreover have "p < c' + d" "c' + d < c" using pc'_lt d0 lt by simp_all
    ultimately show False using blank_between by blast
  qed
  have "spec_kind ?n' p c' = spec_kind ?n p c"
    by (simp add: spec_kind_def c'_eq n')
  with gt' have "t < c' - p - 1" by (simp add: t)
  with b1 show False by (simp add: c'_eq d_def)
qed

text \<open>Every template literal line that holds nothing but white space follows another
  template literal line: a quasi starts on the line that holds its opening delimiter.\<close>

definition template_lines_anchored :: "int set \<Rightarrow> jsstring list \<Rightarrow> bool" where
  "template_lines_anchored tl_lines ls =
     (\<forall>k \<in> tl_lines. 1 \<le> k \<and> k \<le> int (length ls) \<longrightarrow>
        anyNonWhitespaceRegex_test (ls ! nat (k - 1)) \<or> k - 1 \<in> tl_lines)"

lemma run_lines_blank:
  assumes "(p, c) \<in> set (spec_runs (spec_markers T A))" and "p < k" and "k < c"
  shows "\<not> nonblank_line T A k"
proof
  assume nb: "nonblank_line T A k"
  let ?ms = "spec_markers T A"
  from assms(1) have pc: "(p, c) \<in> set (zip (0 # butlast ?ms) ?ms)"
    by (simp add: spec_runs_def)
  from runs_increasing [OF sorted_zero_spec_markers pc]
  have "p \<in> set (0 # ?ms)" "c \<in> set ?ms" by simp_all
  then have "0 \<le> p" "c \<le> int (length A) + 1" by (auto simp: set_spec_markers)
  with nb assms(2,3) have "k \<in> set (0 # ?ms)" by (simp add: set_spec_markers)
  from no_marker_inside_run [OF sorted_zero_spec_markers pc this] assms(2,3)
  show False by simp
qed

lemma anyNonWhitespaceRegex_test_Nil [simp]: "\<not> anyNonWhitespaceRegex_test []"
  by (simp add: anyNonWhitespaceRegex_test_def)

lemma fix_then_rescan:
  assumes v: "validate_options raw = Some options"
    and anch: "template_lines_anchored T (allLines (SourceCode s))"
    and r: "r \<in> set (Program_exit (create options) (SourceCode s) T)"
    and f: "rep_fix r = Inr fx"
    and r': "r' \<in> set (Program_exit (create options) (SourceCode (apply_fix s fx))
                         (shift_lines (report_previous r)
                            (int (length (allLines (SourceCode s)))
                               - int (length (allLines (SourceCode (apply_fix s fx))))) T))"
  shows "report_previous r' \<noteq> report_previous r"
proof
  assume same: "report_previous r' = report_previous r"
  define th where "th = create options"
  define A where "A = allLines (SourceCode s)"
  define n where "n = int (length A)"
  let ?ms = "spec_markers T A"
  from r obtain p c where r_eq: "r = spec_report th (SourceCode s) n (p, c)"
    and run: "(p, c) \<in> set (spec_runs ?ms)"
    and gt: "run_length p c > spec_threshold th (spec_kind n p c)"
    unfolding th_def A_def n_def by (rule Program_exit_report)
  define t where "t = spec_threshold th (spec_kind n p c)"
  have viol: "(p, c) \<in> set (spec_violations th n ?ms)"
    using run gt by (simp add: spec_violations_def)
  have t0: "0 \<le> t"
    unfolding t_def th_def
    by (rule spec_threshold_nonneg) (rule validated_thresholds_nonneg [OF v])
  from violation_bounds [OF viol [unfolded n_def] t0 [unfolded t_def n_def]]
  have bnd: "0 \<le> p" "p + 1 < c" "c \<le> n + 1" "t < c - p - 1"
    by (simp_all add: n_def t_def)
  have prev: "report_previous r = p" by (simp add: r_eq)
  define a where "a = nat p"
  define b where "b = nat (c - t - 1)"
  define s' where "s' = apply_fix s fx"
  have viol_lm: "(p, c) \<in> set (spec_violations (create options)
                         (int (length (allLines (SourceCode s))))
                         (line_markers (SourceCode s) T))"
    using viol by (simp add: th_def n_def A_def line_markers_spec)
  from violation_report_and_fix [OF v viol_lm]
  obtain rs re where fixr: "rep_fix r = Inr (removeRange rs re)"
    and applied: "apply_fix s (removeRange rs re)
                    = join_lines (take a (scan_lines s)) @ join_lines (drop b (scan_lines s))"
    unfolding Let_def
    by (simp add: r_eq th_def n_def A_def t_def a_def b_def)
  from f fixr have fx: "fx = removeRange rs re" by simp
  have s'_eq: "s' = join_lines (take a (scan_lines s)) @ join_lines (drop b (scan_lines s))"
    by (simp add: s'_def fx applied)
  have ab: "a < b" using bnd t0 by (simp add: a_def b_def)
  have bn: "b \<le> length (allLines (SourceCode s))"
    using bnd t0 by (simp add: b_def n_def A_def)
  from allLines_after_removal [OF ab bn]
  obtain b' where b'1: "b \<le> b'" and b'2: "b' \<le> Suc b" and b'n: "b' \<le> length A"
    and merged: "b' = Suc b \<longrightarrow> A ! b = []"
    and A': "allLines (SourceCode s') = take a A @ drop b' A"
    unfolding s'_eq A_def by blast
  have b1: "c - t - 1 \<le> int b'" using b'1 by (simp add: b_def)
  have b2: "int b' \<le> c - 1"
  proof (rule ccontr)
    assume "\<not> int b' \<le> c - 1"
    with b'2 bnd t0 have sb: "b' = Suc b" and t_zero: "t = 0"
      by (simp_all add: b_def)
    with merged have empty: "A ! b = []" by simp
    from sb t_zero bnd have cb: "c = int b'" "b = nat (c - 1)" by (simp_all add: b_def)
    with b'n have c_le: "c \<le> n" by (simp add: n_def)
    from run have "(p, c) \<in> set (zip (0 # butlast ?ms) ?ms)" by (simp add: spec_runs_def)
    from runs_increasing [OF sorted_zero_spec_markers this] have "c \<in> set ?ms" by simp
    with c_le have "nonblank_line T A c" by (auto simp: set_spec_markers n_def)
    with empty cb have cT: "c \<in> T" by (simp add: nonblank_line_def)
    from anch cT c_le bnd empty cb have "c - 1 \<in> T"
      by (auto simp: template_lines_anchored_def A_def [symmetric] n_def)
    then have "nonblank_line T A (c - 1)" by (simp add: nonblank_line_def)
    moreover have "p < c - 1" "c - 1 < c" using bnd by simp_all
    ultimately show False using run_lines_blank [OF run] by blast
  qed
  have len: "int (length A) - int (length (allLines (SourceCode s'))) = int b' - p"
    using bnd b'n b1 by (simp add: A' a_def min_def)
  have T': "shift_lines (report_previous r)
              (int (length (allLines (SourceCode s)))
                 - int (length (allLines (SourceCode (apply_fix s fx))))) T
            = shift_lines p (int b' - p) T"
    using len by (simp add: prev A_def s'_def)
  from r' obtain p' c' where r'_eq: "r' = spec_report th (SourceCode s')
                                            (int (length (allLines (SourceCode s')))) (p', c')"
    and run': "(p', c') \<in> set (spec_runs (spec_markers (shift_lines p (int b' - p) T)
                                              (allLines (SourceCode s'))))"
    and gt': "run_length p' c'
                > spec_threshold th (spec_kind (int (length (allLines (SourceCode s')))) p' c')"
    unfolding T' th_def s'_def by (rule Program_exit_report)
  from same have "p' = p" by (simp add: prev r'_eq)
  with run' gt'
  have "(p, c') \<in> set (spec_violations th (int (length (allLines (SourceCode s'))))
                         (spec_markers (shift_lines p (int b' - p) T) (allLines (SourceCode s'))))"
    by (simp add: spec_violations_def)
  moreover have "(p, c') \<notin> set (spec_violations th (int (length (allLines (SourceCode s'))))
                         (spec_markers (shift_lines p (int b' - p) T) (allLines (SourceCode s'))))"
    using viol [unfolded n_def] t_def [unfolded n_def] b1 b2 A' [unfolded a_def] refl
    by (rule rescan_quiet)
  ultimately show False by contradiction
qed

text \<open>The lines of template literals are anchored when every quasi that spans several
  lines starts on a line that holds more than white space.\<close>

lemma template_lines_anchored_nodes:
  assumes "\<And>node q. node \<in> set nodes \<Longrightarrow> q \<in> set (quasis node) \<Longrightarrow>
             pos_line (loc_start q) < pos_line (loc_end q) \<Longrightarrow>
             anyNonWhitespaceRegex_test (ls ! nat (pos_line (loc_start q) - 1))"
  shows "template_lines_anchored (fold TemplateLiteral nodes {}) ls"
  unfolding template_lines_anchored_def
proof (intro ballI impI)
  fix k
  assume "k \<in> fold TemplateLiteral nodes {}"
  then obtain node q where nq: "node \<in> set nodes" "q \<in> set (quasis node)"
    and k: "pos_line (loc_start q) \<le> k" "k \<le> pos_line (loc_end q) - 1"
    unfolding fold_TemplateLiteral_lines by auto
  show "anyNonWhitespaceRegex_test (ls ! nat (k - 1)) \<or> k - 1 \<in> fold TemplateLiteral nodes {}"
  proof (cases "k = pos_line (loc_start q)")
    case True
    with assms [OF nq] k show ?thesis by simp
  next
    case False
    with k have "pos_line (loc_start q) \<le> k - 1" "k - 1 \<le> pos_line (loc_end q) - 1"
      by simp_all
    with nq have "k - 1 \<in> fold TemplateLiteral nodes {}"
      unfolding fold_TemplateLiteral_lines by auto
    then show ?thesis by simp
  qed
qed

text \<open>
  C6. For every source text: when the fix of a report is applied and the corrected text
  is scanned again under the same configuration, no report is made for the run behind
  the same previous marker; the template literal lines of the corrected text are those
  of the text, moved up by the number of lines that the fix removed. The text
  \<^verbatim>\<open>a<LF><LF><LF><LF><LF>b<LF>\<close> with \<^verbatim>\<open>max = 1\<close> yields one interior report; its fix
  gives \<^verbatim>\<open>a<LF><LF>b<LF>\<close>, with one blank line, on which the scan reports nothing.
\<close>

theorem fix_then_rescan_is_quiet:
  assumes "validate_options raw = Some options"
    and "template_lines_anchored tl_lines (allLines (SourceCode s))"
    and "r \<in> set (Program_exit (create options) (SourceCode s) tl_lines)"
    and "rep_fix r = Inr fx"
  shows "(let s' = apply_fix s fx;
              d = int (length (allLines (SourceCode s))) - int (length (allLines (SourceCode s')));
              tl_lines' = shift_lines (report_previous r) d tl_lines
          in \<forall>r' \<in> set (Program_exit (create options) (SourceCode s') tl_lines').
               report_previous r' \<noteq> report_previous r)
       \<and> map_sum id (map (\<lambda>r. (messageId r, rep_fix r)))
           (no_multiple_empty_lines [JObject [(''max'', JInteger 1)]] []
              (js ''a\<newline>\<newline>\<newline>\<newline>\<newline>b\<newline>''))
         = Inr [(consecutiveBlank, Inr (removeRange 2 5))]
       \<and> apply_fix (js ''a\<newline>\<newline>\<newline>\<newline>\<newline>b\<newline>'') (removeRange 2 5)
         = js ''a\<newline>\<newline>b\<newline>''
       \<and> allLines (SourceCode (js ''a\<newline>\<newline>b\<newline>'')) = [js ''a'', [], js ''b'']
       \<and> no_multiple_empty_lines [JObject [(''max'', JInteger 1)]] []
           (js ''a\<newline>\<newline>b\<newline>'') = Inr []"
proof (intro conjI)
  show "let s' = apply_fix s fx;
            d = int (length (allLines (SourceCode s))) - int (length (allLines (SourceCode s')));
            tl_lines' = shift_lines (report_previous r) d tl_lines
        in \<forall>r' \<in> set (Program_exit (create options) (SourceCode s') tl_lines').
             report_previous r' \<noteq> report_previous r"
    unfolding Let_def using fix_then_rescan [OF assms] by blast
  show "map_sum id (map (\<lambda>r. (messageId r, rep_fix r)))
           (no_multiple_empty_lines [JObject [(''max'', JInteger 1)]] []
              (js ''a\<newline>\<newline>\<newline>\<newline>\<newline>b\<newline>''))
         = Inr [(consecutiveBlank, Inr (removeRange 2 5))]"
    by code_simp
  show "apply_fix (js ''a\<newline>\<newline>\<newline>\<newline>\<newline>b\<newline>'') (removeRange 2 5)
         = js ''a\<newline>\<newline>b\<newline>''"
    by code_simp
  show "allLines (SourceCode (js ''a\<newline>\<newline>b\<newline>'')) = [js ''a'', [], js ''b'']"
    by code_simp
  show "no_multiple_empty_lines [JObject [(''max'', JInteger 1)]] []
           (js ''a\<newline>\<newline>b\<newline>'') = Inr []"
    by code_simp
qed

theorem fix_then_rescan_is_quiet_witness:
  "validate_options [JObject [(''max'', JInteger 1)]]
     = Some [\<lparr> opt_max = 1, opt_maxEOF = None, opt_maxBOF = None \<rparr>]
   \<and> template_lines_anchored {1, 2}
       (allLines (SourceCode (js ''x = `a\<newline>\<newline>b`;\<newline>\<newline>\<newline>\<newline>c\<newline>'')))
   \<and> map (\<lambda>r. (report_previous r, rep_fix r))
         (Program_exit (create [\<lparr> opt_max = 1, opt_maxEOF = None, opt_maxBOF = None \<rparr>])
            (SourceCode (js ''x = `a\<newline>\<newline>b`;\<newline>\<newline>\<newline>\<newline>c\<newline>'')) {1, 2})
       = [(3, Inr (removeRange 12 14))]
   \<and> apply_fix (js ''x = `a\<newline>\<newline>b`;\<newline>\<newline>\<newline>\<newline>c\<newline>'') (removeRange 12 14)
       = js ''x = `a\<newline>\<newline>b`;\<newline>\<newline>c\<newline>''
   \<and> list_all (\<lambda>r'. report_previous r' \<noteq> 3)
         (Program_exit (create [\<lparr> opt_max = 1, opt_maxEOF = None, opt_maxBOF = None \<rparr>])
            (SourceCode (js ''x = `a\<newline>\<newline>b`;\<newline>\<newline>c\<newline>'')) {1, 2})"
proof -
  let ?s = "js ''x = `a\<newline>\<newline>b`;\<newline>\<newline>\<newline>\<newline>c\<newline>''"
  let ?s' = "js ''x = `a\<newline>\<newline>b`;\<newline>\<newline>c\<newline>''"
  let ?opts = "[\<lparr> opt_max = 1, opt_maxEOF = None, opt_maxBOF = None \<rparr>]"
  let ?r = "context_report (SourceCode ?s) 7 3 7 consecutiveBlank 1"
  let ?fx = "removeRange 12 14"
  have v: "validate_options [JObject [(''max'', JInteger 1)]] = Some ?opts"
    by code_simp
  have a: "template_lines_anchored {1, 2} (allLines (SourceCode ?s))"
    unfolding template_lines_anchored_def by code_simp
  have p: "Program_exit (create ?opts) (SourceCode ?s) {1, 2} = [?r]"
    by code_simp
  have f: "rep_fix ?r = Inr ?fx" by code_simp
  have m: "?r \<in> set (Program_exit (create ?opts) (SourceCode ?s) {1, 2})"
    unfolding p by simp
  have ap: "apply_fix ?s ?fx = ?s'" by code_simp
  have pr: "report_previous ?r = 3" by code_simp
  have d: "int (length (allLines (SourceCode ?s))) - int (length (allLines (SourceCode ?s'))) = 2"
    by code_simp
  have sh: "shift_lines 3 2 {1, 2} = {1, 2}"
    by (auto simp: shift_lines_def)
  have l: "map (\<lambda>r. (report_previous r, rep_fix r)) (Program_exit (create ?opts) (SourceCode ?s) {1, 2})
        = [(3, Inr ?fx)]"
    unfolding p using pr f by simp
  from fix_then_rescan_is_quiet [OF v a m f]
  have "list_all (\<lambda>r'. report_previous r' \<noteq> 3)
         (Program_exit (create ?opts) (SourceCode ?s') {1, 2})"
    unfolding Let_def ap d pr sh by (simp add: list_all_iff)
  with v a l ap show ?thesis by (intro conjI)
qed

section \<open>Properties of \<^verbatim>\<open>no-tabs\<close>\<close>

subsection \<open>The matches of a line\<close>

text \<open>The matches that the \<^verbatim>\<open>while\<close> loop visits, in order.\<close>

function tab_matches :: "jsstring \<Rightarrow> nat \<Rightarrow> regex_match list" where
  "tab_matches ln lastIndex =
     (case tabRegex_exec ln lastIndex of
        (None, lastIndex') \<Rightarrow> []
      | (Some m, lastIndex') \<Rightarrow> m # tab_matches ln lastIndex')"
  by pat_completeness auto
termination
  by (relation "measure (\<lambda>(ln, lastIndex). length ln - lastIndex)")
     (auto dest: tabRegex_exec_decreases)

declare tab_matches.simps [simp del]
declare tab_loop.simps [simp del]

definition run_end :: "jsstring \<Rightarrow> nat \<Rightarrow> nat" where
  "run_end ln i = i + length (takeWhile (\<lambda>c. c = TAB) (drop i ln))"

definition is_run_start :: "jsstring \<Rightarrow> nat \<Rightarrow> bool" where
  "is_run_start ln i = (i < length ln \<and> ln ! i = TAB \<and> (i = 0 \<or> ln ! (i - 1) \<noteq> TAB))"

lemma tabRegex_exec_None:
  assumes "tabRegex_exec ln li = (None, li')"
  shows "li' = 0 \<and> (\<forall>k. li \<le> k \<and> k < length ln \<longrightarrow> ln ! k \<noteq> TAB)"
proof -
  let ?rest = "drop li ln"
  let ?after = "dropWhile (\<lambda>c. c \<noteq> TAB) ?rest"
  from assms have li': "li' = 0" and run: "takeWhile (\<lambda>c. c = TAB) ?after = []"
    by (auto simp: tabRegex_exec_def Let_def split: if_splits)
  have "?after = []"
  proof (rule ccontr)
    assume ne: "?after \<noteq> []"
    then have "\<not> (hd ?after \<noteq> TAB)" by (rule hd_dropWhile)
    with ne run show False by (auto simp: takeWhile_eq_Nil_iff)
  qed
  then have all: "\<forall>c \<in> set ?rest. c \<noteq> TAB" by simp
  have "ln ! k \<noteq> TAB" if "li \<le> k" "k < length ln" for k
  proof -
    from that have "ln ! k = ?rest ! (k - li)" "k - li < length ?rest" by simp_all
    with all show ?thesis by (metis nth_mem)
  qed
  with li' show ?thesis by simp
qed

lemma tabRegex_exec_Some:
  assumes "tabRegex_exec ln li = (Some m, li')"
  shows "li \<le> match_index m \<and> match_index m < length ln
       \<and> (\<forall>k. li \<le> k \<and> k < match_index m \<longrightarrow> ln ! k \<noteq> TAB)
       \<and> ln ! match_index m = TAB
       \<and> match_text m = takeWhile (\<lambda>c. c = TAB) (drop (match_index m) ln)
       \<and> match_text m \<noteq> []
       \<and> li' = match_index m + length (match_text m)"
proof -
  let ?rest = "drop li ln"
  let ?skipped = "takeWhile (\<lambda>c. c \<noteq> TAB) ?rest"
  let ?after = "dropWhile (\<lambda>c. c \<noteq> TAB) ?rest"
  let ?run = "takeWhile (\<lambda>c. c = TAB) ?after"
  from assms have run: "?run \<noteq> []"
    and m: "m = \<lparr> match_index = li + length ?skipped, match_text = ?run \<rparr>"
    and li': "li' = li + length ?skipped + length ?run"
    by (auto simp: tabRegex_exec_def Let_def split: if_splits)
  have idx: "match_index m = li + length ?skipped" and mtx: "match_text m = ?run"
    by (simp_all add: m)
  have after: "?after = drop (match_index m) ln"
    by (simp add: dropWhile_eq_drop idx add.commute)
  have ne: "?after \<noteq> []"
  proof
    assume e: "?after = []"
    have "?run = []" unfolding e by simp
    with run show False by contradiction
  qed
  then have lt: "match_index m < length ln" unfolding after by simp
  from ne have "hd ?after = TAB" using hd_dropWhile [of "\<lambda>c. c \<noteq> TAB" ?rest] by simp
  then have tab: "ln ! match_index m = TAB"
    using ne unfolding after by (simp add: hd_drop_conv_nth)
  have skip: "ln ! k \<noteq> TAB" if "li \<le> k" "k < match_index m" for k
  proof -
    from that have j: "k - li < length ?skipped" by (simp add: idx)
    then have "?skipped ! (k - li) \<in> set ?skipped" by (rule nth_mem)
    then have "?skipped ! (k - li) \<noteq> TAB" by (auto dest: set_takeWhileD)
    moreover have "?skipped ! (k - li) = ?rest ! (k - li)" using j by (rule takeWhile_nth)
    moreover have "?rest ! (k - li) = ln ! k" using that lt by simp
    ultimately show ?thesis by simp
  qed
  have mt: "match_text m = takeWhile (\<lambda>c. c = TAB) (drop (match_index m) ln)"
    unfolding mtx after ..
  have ne_t: "match_text m \<noteq> []" unfolding mtx by (rule run)
  have li2: "li' = match_index m + length (match_text m)"
    unfolding mtx idx by (rule li')
  have "li \<le> match_index m" by (simp add: idx)
  with lt tab skip mt ne_t li2 show ?thesis by blast
qed

text \<open>A maximal run of tabs of a line: the columns from \<open>i\<close> up to, but not including,
  \<open>j\<close> hold tabs, and the run can be extended neither to the left nor to the right.\<close>

definition maximal_tab_run :: "jsstring \<Rightarrow> nat \<Rightarrow> nat \<Rightarrow> bool" where
  "maximal_tab_run ln i j =
     (i < j \<and> j \<le> length ln \<and> list_all (\<lambda>k. ln ! k = TAB) [i..<j]
      \<and> (i = 0 \<or> ln ! (i - 1) \<noteq> TAB) \<and> (j = length ln \<or> ln ! j \<noteq> TAB))"

definition tab_runs :: "jsstring \<Rightarrow> (nat \<times> nat) list" where
  "tab_runs ln =
     filter (\<lambda>(i, j). maximal_tab_run ln i j)
       (List.product [0..<length ln] [0..<Suc (length ln)])"

lemma run_end_tabs:
  assumes "i \<le> k" and "k < run_end ln i"
  shows "ln ! k = TAB \<and> k < length ln"
proof -
  let ?tw = "takeWhile (\<lambda>c. c = TAB) (drop i ln)"
  from assms have j: "k - i < length ?tw" by (simp add: run_end_def)
  then have "?tw ! (k - i) \<in> set ?tw" by (rule nth_mem)
  then have "?tw ! (k - i) = TAB" by (auto dest: set_takeWhileD)
  moreover have "?tw ! (k - i) = drop i ln ! (k - i)" using j by (rule takeWhile_nth)
  moreover have "k - i < length (drop i ln)"
    using j length_takeWhile_le [of "\<lambda>c. c = TAB" "drop i ln"] by simp
  ultimately show ?thesis using assms(1) by simp
qed

lemma run_end_le: "i \<le> length ln \<Longrightarrow> run_end ln i \<le> length ln"
  using length_takeWhile_le [of "\<lambda>c. c = TAB" "drop i ln"] by (simp add: run_end_def)

lemma run_end_ge: "i \<le> run_end ln i"
  by (simp add: run_end_def)

lemma run_end_stops:
  assumes "run_end ln i < length ln"
  shows "ln ! run_end ln i \<noteq> TAB"
proof -
  let ?tw = "takeWhile (\<lambda>c. c = TAB) (drop i ln)"
  from assms have "length ?tw < length (drop i ln)" by (simp add: run_end_def)
  then have "\<not> (drop i ln ! length ?tw = TAB)" by (rule nth_length_takeWhile)
  moreover have "drop i ln ! length ?tw = ln ! (i + length ?tw)"
    using assms by (simp add: run_end_def)
  ultimately show ?thesis by (simp add: run_end_def)
qed

lemma run_end_unique:
  assumes "i \<le> j" and "j \<le> length ln"
    and "\<And>k. i \<le> k \<Longrightarrow> k < j \<Longrightarrow> ln ! k = TAB"
    and "j = length ln \<or> ln ! j \<noteq> TAB"
  shows "run_end ln i = j"
proof -
  have "takeWhile (\<lambda>c. c = TAB) (drop i ln) = take (j - i) (drop i ln)"
  proof (rule takeWhile_eq_take_P_nth)
    fix k assume "k < j - i" "k < length (drop i ln)"
    then show "drop i ln ! k = TAB" using assms(3) [of "i + k"] by simp
  next
    assume "j - i < length (drop i ln)"
    with assms(1,2,4) show "\<not> (drop i ln ! (j - i) = TAB)" by auto
  qed
  with assms(1,2) show ?thesis by (simp add: run_end_def)
qed

lemma run_start_run_end: "is_run_start ln i \<Longrightarrow> i < run_end ln i"
proof -
  assume s: "is_run_start ln i"
  then have "drop i ln \<noteq> []" "hd (drop i ln) = TAB"
    by (simp_all add: is_run_start_def hd_drop_conv_nth)
  then have "takeWhile (\<lambda>c. c = TAB) (drop i ln) \<noteq> []"
    by (simp add: takeWhile_eq_Nil_iff)
  then show ?thesis by (simp add: run_end_def)
qed

lemma maximal_tab_run_iff:
  "maximal_tab_run ln i j \<longleftrightarrow> is_run_start ln i \<and> j = run_end ln i"
proof
  assume m: "maximal_tab_run ln i j"
  then have ij: "i < j" "j \<le> length ln" and tabs: "\<And>k. i \<le> k \<Longrightarrow> k < j \<Longrightarrow> ln ! k = TAB"
    and left: "i = 0 \<or> ln ! (i - 1) \<noteq> TAB" and right: "j = length ln \<or> ln ! j \<noteq> TAB"
    by (auto simp: maximal_tab_run_def list_all_iff)
  from ij tabs [of i] left have "is_run_start ln i" by (simp add: is_run_start_def)
  moreover have "run_end ln i = j"
    using ij tabs right by (intro run_end_unique) simp_all
  ultimately show "is_run_start ln i \<and> j = run_end ln i" by simp
next
  assume a: "is_run_start ln i \<and> j = run_end ln i"
  then have s: "is_run_start ln i" and j: "j = run_end ln i" by simp_all
  from s have il: "i \<le> length ln" by (simp add: is_run_start_def)
  have "i < j" unfolding j using s by (rule run_start_run_end)
  moreover have "j \<le> length ln" unfolding j using il by (rule run_end_le)
  moreover have "list_all (\<lambda>k. ln ! k = TAB) [i..<j]"
    unfolding j by (auto simp: list_all_iff dest: run_end_tabs)
  moreover have "i = 0 \<or> ln ! (i - 1) \<noteq> TAB" using s by (simp add: is_run_start_def)
  moreover have "j = length ln \<or> ln ! j \<noteq> TAB"
    using run_end_stops [of ln i] run_end_le [OF il] unfolding j by auto
  ultimately show "maximal_tab_run ln i j" by (simp add: maximal_tab_run_def)
qed

lemma filter_eq_upt: "a < m \<Longrightarrow> filter (\<lambda>j. j = a) [0..<m] = [a]"
proof (induction m)
  case 0
  then show ?case by simp
next
  case (Suc m)
  show ?case
  proof (cases "a = m")
    case True
    have "filter (\<lambda>j. j = m) [0..<m] = []" by (auto simp: filter_empty_conv)
    with True show ?thesis by simp
  next
    case False
    with Suc show ?thesis by simp
  qed
qed

lemma concat_map_if:
  "concat (map (\<lambda>i. if S i then [f i] else []) xs) = map f (filter S xs)"
  by (induction xs) simp_all

lemma tab_runs_run_starts:
  "tab_runs ln = map (\<lambda>i. (i, run_end ln i)) (filter (is_run_start ln) [0..<length ln])"
proof -
  let ?ys = "[0..<Suc (length ln)]"
  have pair: "filter (\<lambda>(i, j). maximal_tab_run ln i j) (map (Pair i) ?ys)
              = map (Pair i) (filter (\<lambda>j. maximal_tab_run ln i j) ?ys)" for i
    by (simp add: filter_map comp_def del: upt_Suc)
  have row: "filter (\<lambda>(i, j). maximal_tab_run ln i j) (map (Pair i) ?ys)
             = (if is_run_start ln i then [(i, run_end ln i)] else [])" for i
  proof (cases "is_run_start ln i")
    case True
    then have "run_end ln i < Suc (length ln)"
      using run_end_le [of i ln] by (simp add: is_run_start_def)
    then have "filter (\<lambda>j. j = run_end ln i) ?ys = [run_end ln i]" by (rule filter_eq_upt)
    moreover have "(\<lambda>j. maximal_tab_run ln i j) = (\<lambda>j. j = run_end ln i)"
      using True by (simp add: maximal_tab_run_iff fun_eq_iff)
    ultimately show ?thesis
      using True unfolding pair by simp
  next
    case False
    then have "(\<lambda>j. maximal_tab_run ln i j) = (\<lambda>j. False)"
      by (simp add: maximal_tab_run_iff fun_eq_iff)
    with False show ?thesis
      unfolding pair by simp
  qed
  have "tab_runs ln
      = concat (map (\<lambda>i. filter (\<lambda>(i, j). maximal_tab_run ln i j) (map (Pair i) ?ys))
                  [0..<length ln])"
    by (simp add: tab_runs_def product_concat_map filter_concat comp_def del: upt_Suc)
  also have "\<dots> = concat (map (\<lambda>i. if is_run_start ln i then [(i, run_end ln i)] else [])
                        [0..<length ln])"
    by (simp only: row)
  also have "\<dots> = map (\<lambda>i. (i, run_end ln i)) (filter (is_run_start ln) [0..<length ln])"
    by (rule concat_map_if)
  finally show ?thesis .
qed

definition match_span :: "regex_match \<Rightarrow> nat \<times> nat" where
  "match_span m = (match_index m, match_index m + length (match_text m))"

lemma tab_matches_None:
  "tabRegex_exec ln li = (None, li') \<Longrightarrow> tab_matches ln li = []"
  by (simp add: tab_matches.simps)

lemma tab_matches_Some:
  "tabRegex_exec ln li = (Some m, li') \<Longrightarrow> tab_matches ln li = m # tab_matches ln li'"
  by (simp add: tab_matches.simps)

lemma upt_split: "i \<le> j \<Longrightarrow> j \<le> k \<Longrightarrow> [i..<k] = [i..<j] @ [j..<k]"
  by (metis le_Suc_ex upt_add_eq_append)

lemma tab_matches_run_starts:
  assumes "0 < li \<and> li < length ln \<longrightarrow> ln ! li \<noteq> TAB"
  shows "map match_span (tab_matches ln li)
         = map (\<lambda>i. (i, run_end ln i)) (filter (is_run_start ln) [li..<length ln])"
  using assms
proof (induction ln li rule: tab_matches.induct)
  case (1 ln li)
  obtain x1 li' where ex: "tabRegex_exec ln li = (x1, li')"
    by (cases "tabRegex_exec ln li")
  show ?case
  proof (cases x1)
    case None
    with ex have e: "tabRegex_exec ln li = (None, li')" by simp
    from tabRegex_exec_None [OF e]
    have "filter (is_run_start ln) [li..<length ln] = []"
      by (auto simp: filter_empty_conv is_run_start_def)
    with tab_matches_None [OF e] show ?thesis by simp
  next
    case (Some m)
    with ex have e: "tabRegex_exec ln li = (Some m, li')" by simp
    let ?i = "match_index m"
    from tabRegex_exec_Some [OF e]
    have le: "li \<le> ?i" and lt: "?i < length ln"
      and skip: "\<And>k. li \<le> k \<Longrightarrow> k < ?i \<Longrightarrow> ln ! k \<noteq> TAB"
      and tab: "ln ! ?i = TAB"
      and mt: "match_text m = takeWhile (\<lambda>c. c = TAB) (drop ?i ln)"
      and li': "li' = ?i + length (match_text m)"
      by blast+
    have re: "li' = run_end ln ?i" by (simp add: li' mt run_end_def)
    have left: "?i = 0 \<or> ln ! (?i - 1) \<noteq> TAB"
    proof (cases "?i = li")
      case True
      with "1.prems" lt tab show ?thesis by auto
    next
      case False
      with le have "li \<le> ?i - 1" "?i - 1 < ?i" by simp_all
      then show ?thesis using skip by blast
    qed
    have start: "is_run_start ln ?i"
      using lt tab left by (simp add: is_run_start_def)
    have gt: "?i < li'" unfolding re using start by (rule run_start_run_end)
    have li'_le: "li' \<le> length ln" unfolding re using lt by (intro run_end_le) simp
    have inv': "0 < li' \<and> li' < length ln \<longrightarrow> ln ! li' \<noteq> TAB"
      unfolding re using run_end_stops [of ln ?i] by simp
    have IH: "map match_span (tab_matches ln li')
         = map (\<lambda>i. (i, run_end ln i)) (filter (is_run_start ln) [li'..<length ln])"
      using "1.IH" [OF ex [symmetric] Some inv'] .
    have split: "[li..<length ln] = [li..<?i] @ [?i] @ [Suc ?i..<li'] @ [li'..<length ln]"
    proof -
      have "[li..<length ln] = [li..<?i] @ [?i..<length ln]"
        using le lt by (intro upt_split) simp_all
      also have "[?i..<length ln] = ?i # [Suc ?i..<length ln]"
        using lt by (rule upt_conv_Cons)
      also have "[Suc ?i..<length ln] = [Suc ?i..<li'] @ [li'..<length ln]"
        using gt li'_le by (intro upt_split) simp_all
      finally show ?thesis by simp
    qed
    have f1: "filter (is_run_start ln) [li..<?i] = []"
      using skip by (auto simp: filter_empty_conv is_run_start_def)
    have f2: "filter (is_run_start ln) [Suc ?i..<li'] = []"
    proof -
      have "\<not> is_run_start ln k" if "Suc ?i \<le> k" "k < li'" for k
      proof -
        from that have "?i \<le> k - 1" "k - 1 < run_end ln ?i" by (simp_all add: re)
        then have "ln ! (k - 1) = TAB" using run_end_tabs by blast
        with that show ?thesis by (simp add: is_run_start_def)
      qed
      then show ?thesis by (auto simp: filter_empty_conv)
    qed
    have "map match_span (tab_matches ln li) = (?i, li') # map match_span (tab_matches ln li')"
      by (simp add: tab_matches_Some [OF e] match_span_def li')
    also have "\<dots> = map (\<lambda>i. (i, run_end ln i)) (filter (is_run_start ln) [li..<length ln])"
      unfolding split filter_append f1 f2 IH using start by (simp add: re)
    finally show ?thesis .
  qed
qed

lemma tab_matches_tab_runs: "map match_span (tab_matches ln 0) = tab_runs ln"
  by (simp add: tab_matches_run_starts tab_runs_run_starts)

lemma length_tab_matches: "length (tab_matches ln li) \<le> length ln - li"
proof (induction ln li rule: tab_matches.induct)
  case (1 ln li)
  obtain x1 li' where ex: "tabRegex_exec ln li = (x1, li')"
    by (cases "tabRegex_exec ln li")
  show ?case
  proof (cases x1)
    case None
    with ex show ?thesis by (simp add: tab_matches_None)
  next
    case (Some m)
    with ex have e: "tabRegex_exec ln li = (Some m, li')" by simp
    from "1.IH" [OF ex [symmetric] Some]
    have "length (tab_matches ln li') \<le> length ln - li'" .
    moreover have "length (tab_matches ln li) = Suc (length (tab_matches ln li'))"
      by (simp add: tab_matches_Some [OF e])
    ultimately show ?thesis
      using tabRegex_exec_advances [OF e] by arith
  qed
qed

text \<open>A match is reported unless tabs are allowed in the indentation and nothing but
  white space comes before it.\<close>

definition reported :: "bool \<Rightarrow> jsstring \<Rightarrow> regex_match \<Rightarrow> bool" where
  "reported allow ln m =
     (\<not> (allow \<and> \<not> anyNonWhitespaceRegex_test (take (match_index m) ln)))"

lemma tab_loop_matches:
  "tab_loop allow index ln li
     = (map (tab_context_report index) (filter (reported allow ln) (tab_matches ln li)), 0)"
proof (induction ln li rule: tab_matches.induct)
  case (1 ln li)
  obtain x1 li' where ex: "tabRegex_exec ln li = (x1, li')"
    by (cases "tabRegex_exec ln li")
  show ?case
  proof (cases x1)
    case None
    with ex have e: "tabRegex_exec ln li = (None, li')" by simp
    from tabRegex_exec_None [OF e] have "li' = 0" by simp
    with e show ?thesis by (simp add: tab_loop.simps tab_matches_None)
  next
    case (Some m)
    with ex have e: "tabRegex_exec ln li = (Some m, li')" by simp
    from "1.IH" [OF ex [symmetric] Some]
    have IH: "tab_loop allow index ln li'
       = (map (tab_context_report index) (filter (reported allow ln) (tab_matches ln li')), 0)" .
    have step: "tab_loop allow index ln li
       = (if \<not> reported allow ln m
          then tab_loop allow index ln li'
          else (case tab_loop allow index ln li' of
                  (reports, li) \<Rightarrow> (tab_context_report index m # reports, li)))"
      by (subst tab_loop.simps) (simp add: e reported_def)
    show ?thesis
      unfolding step IH by (simp add: tab_matches_Some [OF e])
  qed
qed

subsection \<open>The reports of a text\<close>

text \<open>A run that starts at column \<open>i\<close> lies in the leading indentation when every
  character before it on the line is white space.\<close>

definition in_indentation :: "jsstring \<Rightarrow> nat \<Rightarrow> bool" where
  "in_indentation ln i = list_all is_whitespace (take i ln)"

definition tab_span :: "tab_report \<Rightarrow> int \<times> int \<times> int \<times> int" where
  "tab_span r =
     (pos_line (loc_start (tab_loc r)), pos_column (loc_start (tab_loc r)),
      pos_line (loc_end (tab_loc r)), pos_column (loc_end (tab_loc r)))"

text \<open>The spans to report: for every line, one for each maximal run of tabs, left to
  right, on that line from the first column of the run to the column behind its last;
  with tabs allowed in the indentation, only for the runs outside of it.\<close>

definition run_reported :: "bool \<Rightarrow> jsstring \<Rightarrow> nat \<times> nat \<Rightarrow> bool" where
  "run_reported allow ln run = (case run of (i, j) \<Rightarrow> \<not> (allow \<and> in_indentation ln i))"

definition line_spans :: "bool \<Rightarrow> nat \<Rightarrow> jsstring \<Rightarrow> (int \<times> int \<times> int \<times> int) list" where
  "line_spans allow k ln =
     map (\<lambda>(i, j). (int k + 1, int i, int k + 1, int j))
       (filter (run_reported allow ln) (tab_runs ln))"

definition spec_tab_spans :: "bool \<Rightarrow> jsstring list \<Rightarrow> (int \<times> int \<times> int \<times> int) list" where
  "spec_tab_spans allow ls = concat (map (\<lambda>(k, ln). line_spans allow k ln) (enumerate 0 ls))"

definition runs_outside_indentation :: "jsstring list \<Rightarrow> nat" where
  "runs_outside_indentation ls =
     sum_list (map (\<lambda>ln. length (filter (\<lambda>(i, j). \<not> in_indentation ln i) (tab_runs ln))) ls)"

definition runs_in_indentation :: "jsstring list \<Rightarrow> nat" where
  "runs_in_indentation ls =
     sum_list (map (\<lambda>ln. length (filter (\<lambda>(i, j). in_indentation ln i) (tab_runs ln))) ls)"

lemma in_indentation_iff:
  "in_indentation ln i \<longleftrightarrow> \<not> anyNonWhitespaceRegex_test (take i ln)"
  by (simp add: in_indentation_def anyNonWhitespaceRegex_test_def list_all_iff list_ex_iff)

lemma reported_span: "reported allow ln = run_reported allow ln \<circ> match_span"
  by (simp add: reported_def run_reported_def match_span_def in_indentation_iff fun_eq_iff)

lemma tab_span_report:
  "tab_span (tab_context_report (int k) m)
     = (\<lambda>(i, j). (int k + 1, int i, int k + 1, int j)) (match_span m)"
  by (simp add: tab_span_def tab_context_report_def match_span_def)

lemma tab_loop_line_spans:
  "map tab_span (fst (tab_loop allow (int k) ln 0)) = line_spans allow k ln"
proof -
  have "map tab_span (fst (tab_loop allow (int k) ln 0))
      = map ((\<lambda>(i, j). (int k + 1, int i, int k + 1, int j)) \<circ> match_span)
          (filter (run_reported allow ln \<circ> match_span) (tab_matches ln 0))"
    by (simp add: tab_loop_matches comp_def tab_span_report reported_span)
  also have "\<dots> = map (\<lambda>(i, j). (int k + 1, int i, int k + 1, int j))
                     (filter (run_reported allow ln) (map match_span (tab_matches ln 0)))"
    by (simp add: filter_map)
  finally show ?thesis by (simp add: tab_matches_tab_runs line_spans_def)
qed

lemma lines_forEach_concat:
  "lines_forEach allow (int n) 0 ls
     = (concat (map (\<lambda>(k, ln). fst (tab_loop allow (int k) ln 0)) (enumerate n ls)), 0)"
proof (induction ls arbitrary: n)
  case Nil
  show ?case by simp
next
  case (Cons l ls)
  have IH: "lines_forEach allow (int n + 1) 0 ls
     = (concat (map (\<lambda>(k, ln). fst (tab_loop allow (int k) ln 0)) (enumerate (Suc n) ls)), 0)"
    using Cons [of "Suc n"] by (simp add: add.commute)
  have "lines_forEach allow (int n) 0 (l # ls)
      = (case tab_loop allow (int n) l 0 of
           (reports, li) \<Rightarrow>
             (case lines_forEach allow (int n + 1) li ls of
                (reports', li') \<Rightarrow> (reports @ reports', li')))"
    by (simp only: lines_forEach.simps)
  also have "\<dots> = (fst (tab_loop allow (int n) l 0)
                   @ concat (map (\<lambda>(k, ln). fst (tab_loop allow (int k) ln 0))
                       (enumerate (Suc n) ls)), 0)"
    by (simp only: tab_loop_matches IH prod.case fst_conv)
  finally show ?case by simp
qed

lemma Program_concat:
  "Program allow sc
     = concat (map (\<lambda>(k, ln). fst (tab_loop allow (int k) ln 0)) (enumerate 0 (src_lines sc)))"
  using lines_forEach_concat [of allow 0 "src_lines sc"] by (simp add: Program_def)

lemma Program_spans: "map tab_span (Program allow sc) = spec_tab_spans allow (src_lines sc)"
  by (simp add: Program_concat spec_tab_spans_def map_concat comp_def split_def
        tab_loop_line_spans)

lemma length_concat_enumerate:
  "length (concat (map (\<lambda>(k, ln). f k ln) (enumerate n ls)))
     = sum_list (map (\<lambda>(k, ln). length (f k ln)) (enumerate n ls))"
  by (simp add: length_concat comp_def split_def)

lemma sum_list_enumerate:
  "sum_list (map (\<lambda>(k, ln). g ln) (enumerate n ls)) = sum_list (map g ls)"
  by (induction ls arbitrary: n) simp_all

lemma length_spec_tab_spans:
  "length (spec_tab_spans allow ls)
     = sum_list (map (\<lambda>ln. length (filter (run_reported allow ln) (tab_runs ln))) ls)"
proof -
  have "length (spec_tab_spans allow ls)
      = sum_list (map (\<lambda>(k, ln). length (line_spans allow k ln)) (enumerate 0 ls))"
    unfolding spec_tab_spans_def by (rule length_concat_enumerate)
  also have "\<dots> = sum_list (map (\<lambda>(k, ln). length (filter (run_reported allow ln) (tab_runs ln)))
                       (enumerate 0 ls))"
    by (simp add: line_spans_def)
  also have "\<dots> = sum_list (map (\<lambda>ln. length (filter (run_reported allow ln) (tab_runs ln))) ls)"
    by (rule sum_list_enumerate)
  finally show ?thesis .
qed

lemma length_Program:
  "length (Program allow sc)
     = sum_list (map (\<lambda>ln. length (filter (run_reported allow ln) (tab_runs ln))) (src_lines sc))"
  using arg_cong [OF Program_spans, of length allow sc] by (simp add: length_spec_tab_spans)

lemma length_Program_True: "length (Program True sc) = runs_outside_indentation (src_lines sc)"
proof -
  have "run_reported True ln = (\<lambda>(i, j). \<not> in_indentation ln i)" for ln
    by (simp add: run_reported_def fun_eq_iff)
  then show ?thesis by (simp add: length_Program runs_outside_indentation_def)
qed

lemma length_Program_False:
  "length (Program False sc)
     = runs_outside_indentation (src_lines sc) + runs_in_indentation (src_lines sc)"
proof -
  have r: "run_reported False ln = (\<lambda>run. True)" for ln
    by (simp add: run_reported_def fun_eq_iff)
  have "length (tab_runs ln)
      = length (filter (\<lambda>(i, j). \<not> in_indentation ln i) (tab_runs ln))
        + length (filter (\<lambda>(i, j). in_indentation ln i) (tab_runs ln))" for ln
    using sum_length_filter_compl [of "\<lambda>(i, j). in_indentation ln i" "tab_runs ln"]
    by (simp add: split_def)
  then have "sum_list (map (\<lambda>ln. length (tab_runs ln)) ls)
      = runs_outside_indentation ls + runs_in_indentation ls" for ls
    by (induction ls) (simp_all add: runs_outside_indentation_def runs_in_indentation_def)
  then show ?thesis by (simp add: length_Program r)
qed

lemma Program_messageId: "list_all (\<lambda>r. tab_messageId r = unexpectedTab) (Program allow sc)"
  by (auto simp: list_all_iff intro: tab_message_id.exhaust)

lemma set_tab_runs: "(i, j) \<in> set (tab_runs ln) \<longleftrightarrow> maximal_tab_run ln i j"
  by (auto simp: tab_runs_def maximal_tab_run_def)

lemma distinct_tab_runs: "distinct (tab_runs ln)"
  unfolding tab_runs_def by (intro distinct_filter distinct_product) simp_all

lemma span_in_line_spans:
  "(int k + 1, int i, int k + 1, int j) \<in> set (line_spans allow k' ln)
     \<longleftrightarrow> k' = k \<and> maximal_tab_run ln i j \<and> \<not> (allow \<and> in_indentation ln i)"
proof
  assume "(int k + 1, int i, int k + 1, int j) \<in> set (line_spans allow k' ln)"
  then obtain i' j' where "(i', j') \<in> set (tab_runs ln)" "run_reported allow ln (i', j')"
    and "(int k + 1, int i, int k + 1, int j) = (int k' + 1, int i', int k' + 1, int j')"
    by (auto simp: line_spans_def)
  then show "k' = k \<and> maximal_tab_run ln i j \<and> \<not> (allow \<and> in_indentation ln i)"
    by (simp add: set_tab_runs run_reported_def)
next
  assume "k' = k \<and> maximal_tab_run ln i j \<and> \<not> (allow \<and> in_indentation ln i)"
  then have mem: "(i, j) \<in> set (filter (run_reported allow ln) (tab_runs ln))" and k: "k' = k"
    by (simp_all add: set_tab_runs run_reported_def)
  from mem have "(\<lambda>(i, j). (int k' + 1, int i, int k' + 1, int j)) (i, j)
               \<in> set (line_spans allow k' ln)"
    unfolding line_spans_def set_map by (rule imageI)
  with k show "(int k + 1, int i, int k + 1, int j) \<in> set (line_spans allow k' ln)"
    by simp
qed

lemma set_spec_tab_spans:
  "set (spec_tab_spans allow ls) = (\<Union>k' \<in> {..<length ls}. set (line_spans allow k' (ls ! k')))"
proof -
  have "set (enumerate 0 ls) = (\<lambda>k'. (k', ls ! k')) ` {..<length ls}"
    by (auto simp: in_set_enumerate_eq image_iff prod_eq_iff)
  then show ?thesis
    by (simp add: spec_tab_spans_def)
qed

lemma span_in_spec_tab_spans:
  "(int k + 1, int i, int k + 1, int j) \<in> set (spec_tab_spans allow ls)
     \<longleftrightarrow> k < length ls \<and> maximal_tab_run (ls ! k) i j \<and> \<not> (allow \<and> in_indentation (ls ! k) i)"
  unfolding set_spec_tab_spans by (auto simp: span_in_line_spans)

text \<open>The option as the rule reads it from its configuration.\<close>

lemma no_tabs_without_options:
  "no_tabs [] s = Program False (SourceCode s)"
  by (simp add: no_tabs_def no_tabs_create_def)

lemma no_tabs_option_on:
  "allowIndentationTabs ob = Some True \<Longrightarrow>
   no_tabs (ob # rest) s = Program True (SourceCode s)"
  by (simp add: no_tabs_def no_tabs_create_def)

lemma no_tabs_option_off:
  "allowIndentationTabs ob \<noteq> Some True \<Longrightarrow>
   no_tabs (ob # rest) s = Program False (SourceCode s)"
  by (cases "allowIndentationTabs ob") (simp_all add: no_tabs_def no_tabs_create_def)

lemma no_tabs_cases:
  "no_tabs options s = Program False (SourceCode s)
   \<or> no_tabs options s = Program True (SourceCode s)"
  by (simp add: no_tabs_def) (cases "no_tabs_create options", simp_all)

text \<open>
  C3, as stated, fails: in the text \<^verbatim>\<open><TAB>x\<close> no run of tabs lies outside the leading
  indentation, and the rule, without options, makes one report.
\<close>

theorem tabs_in_indentation_counterexample:
  "runs_outside_indentation (src_lines (SourceCode ([TAB] @ js ''x''))) = 0
   \<and> map tab_span (no_tabs [] ([TAB] @ js ''x'')) = [(1, 0, 1, 1)]"
  by code_simp

text \<open>
  C3, amended. For every source text the reports of the tab rule are, line by line and
  from left to right, one for each maximal run of tabs and never one for each tab,
  spanning from the first column of the run to the column behind its last column, on
  one line. Without options, or with an options object whose \<^verbatim>\<open>allowIndentationTabs\<close> is
  not true, all maximal runs are reported, those in the leading indentation as well:
  the count is the number of runs outside the indentation plus the number of runs in
  it. With \<^verbatim>\<open>allowIndentationTabs\<close> true, the runs in the leading indentation are left
  out, and the count is the number \<open>n\<close> of the runs outside the indentation.
\<close>

theorem one_report_per_maximal_tab_run:
  "map tab_span (no_tabs [] s) = spec_tab_spans False (src_lines (SourceCode s))
   \<and> length (no_tabs [] s)
       = runs_outside_indentation (src_lines (SourceCode s))
         + runs_in_indentation (src_lines (SourceCode s))
   \<and> (allowIndentationTabs ob \<noteq> Some True \<longrightarrow>
        map tab_span (no_tabs (ob # rest) s) = spec_tab_spans False (src_lines (SourceCode s))
        \<and> length (no_tabs (ob # rest) s)
            = runs_outside_indentation (src_lines (SourceCode s))
              + runs_in_indentation (src_lines (SourceCode s)))
   \<and> (allowIndentationTabs ob = Some True \<longrightarrow>
        map tab_span (no_tabs (ob # rest) s) = spec_tab_spans True (src_lines (SourceCode s))
        \<and> length (no_tabs (ob # rest) s) = runs_outside_indentation (src_lines (SourceCode s)))
   \<and> list_all (\<lambda>r. tab_messageId r = unexpectedTab) (no_tabs options s)"
proof (intro conjI impI)
  show "map tab_span (no_tabs [] s) = spec_tab_spans False (src_lines (SourceCode s))"
    by (simp only: no_tabs_without_options Program_spans)
  show "length (no_tabs [] s)
       = runs_outside_indentation (src_lines (SourceCode s))
         + runs_in_indentation (src_lines (SourceCode s))"
    by (simp only: no_tabs_without_options length_Program_False)
  show "list_all (\<lambda>r. tab_messageId r = unexpectedTab) (no_tabs options s)"
    using no_tabs_cases [of options s] Program_messageId [of False "SourceCode s"]
      Program_messageId [of True "SourceCode s"]
    by auto
next
  assume off: "allowIndentationTabs ob \<noteq> Some True"
  show "map tab_span (no_tabs (ob # rest) s) = spec_tab_spans False (src_lines (SourceCode s))"
    by (simp only: no_tabs_option_off [OF off] Program_spans)
  show "length (no_tabs (ob # rest) s)
            = runs_outside_indentation (src_lines (SourceCode s))
              + runs_in_indentation (src_lines (SourceCode s))"
    by (simp only: no_tabs_option_off [OF off] length_Program_False)
next
  assume on: "allowIndentationTabs ob = Some True"
  show "map tab_span (no_tabs (ob # rest) s) = spec_tab_spans True (src_lines (SourceCode s))"
    by (simp only: no_tabs_option_on [OF on] Program_spans)
  show "length (no_tabs (ob # rest) s) = runs_outside_indentation (src_lines (SourceCode s))"
    by (simp only: no_tabs_option_on [OF on] length_Program_True)
qed

theorem one_report_per_maximal_tab_run_witness:
  "allowIndentationTabs \<lparr> allowIndentationTabs = Some True \<rparr> = Some True
   \<and> map tab_span (no_tabs [\<lparr> allowIndentationTabs = Some True \<rparr>]
                      ([TAB, TAB] @ js ''x'' @ [TAB] @ js ''y\<newline>'' @ [TAB]))
       = [(1, 3, 1, 4)]
   \<and> length (no_tabs [\<lparr> allowIndentationTabs = Some True \<rparr>]
                ([TAB, TAB] @ js ''x'' @ [TAB] @ js ''y\<newline>'' @ [TAB])) = 1
   \<and> allowIndentationTabs \<lparr> allowIndentationTabs = Some False \<rparr> \<noteq> Some True
   \<and> map tab_span (no_tabs [\<lparr> allowIndentationTabs = Some False \<rparr>]
                      ([TAB, TAB] @ js ''x'' @ [TAB] @ js ''y\<newline>'' @ [TAB]))
       = [(1, 0, 1, 2), (1, 3, 1, 4), (2, 0, 2, 1)]
   \<and> length (no_tabs [] ([TAB, TAB] @ js ''x'' @ [TAB] @ js ''y\<newline>'' @ [TAB])) = 1 + 2"
proof -
  let ?s = "[TAB, TAB] @ js ''x'' @ [TAB] @ js ''y\<newline>'' @ [TAB]"
  let ?on = "\<lparr> allowIndentationTabs = Some True \<rparr>"
  let ?off = "\<lparr> allowIndentationTabs = Some False \<rparr>"
  have on: "allowIndentationTabs ?on = Some True" by simp
  have off: "allowIndentationTabs ?off \<noteq> Some True" by simp
  have t: "spec_tab_spans True (src_lines (SourceCode ?s)) = [(1, 3, 1, 4)]" by code_simp
  have f: "spec_tab_spans False (src_lines (SourceCode ?s))
             = [(1, 0, 1, 2), (1, 3, 1, 4), (2, 0, 2, 1)]" by code_simp
  have o: "runs_outside_indentation (src_lines (SourceCode ?s)) = 1" by code_simp
  have i: "runs_in_indentation (src_lines (SourceCode ?s)) = 2" by code_simp
  from one_report_per_maximal_tab_run [of ?s ?on "[]"] on
  have "map tab_span (no_tabs [?on] ?s) = [(1, 3, 1, 4)]" and "length (no_tabs [?on] ?s) = 1"
    unfolding t o by simp_all
  moreover from one_report_per_maximal_tab_run [of ?s ?off "[]"] off
  have "map tab_span (no_tabs [?off] ?s) = [(1, 0, 1, 2), (1, 3, 1, 4), (2, 0, 2, 1)]"
    and "length (no_tabs [] ?s) = 1 + 2"
    unfolding f o i by simp_all
  ultimately show ?thesis using on off by (intro conjI)
qed

text \<open>
  C4. With \<^verbatim>\<open>allowIndentationTabs\<close> true in the options of the rule, a maximal run of
  tabs is left unreported if and only if every character before it on its line is white
  space; a run that starts its line is never reported then, and a run with a character
  other than white space before it is reported whatever the options are. Without
  options, or with an \<^verbatim>\<open>allowIndentationTabs\<close> that is not true, the run is reported
  wherever it lies. The text \<^verbatim>\<open>x<TAB>foo<LF>\<close> with the option on yields one report.
\<close>

theorem indentation_tabs_suppressed_iff_preceded_by_whitespace:
  assumes "k < length (src_lines (SourceCode s))"
    and "maximal_tab_run (src_lines (SourceCode s) ! k) i j"
    and "allowIndentationTabs ob = Some True"
  shows "((int k + 1, int i, int k + 1, int j) \<in> set (map tab_span (no_tabs (ob # rest) s))
            \<longleftrightarrow> \<not> in_indentation (src_lines (SourceCode s) ! k) i)
       \<and> (i = 0 \<longrightarrow>
            (int k + 1, int i, int k + 1, int j) \<notin> set (map tab_span (no_tabs (ob # rest) s)))
       \<and> (\<not> in_indentation (src_lines (SourceCode s) ! k) i \<longrightarrow>
            (int k + 1, int i, int k + 1, int j) \<in> set (map tab_span (no_tabs options s)))
       \<and> (int k + 1, int i, int k + 1, int j) \<in> set (map tab_span (no_tabs [] s))
       \<and> (allowIndentationTabs ob' \<noteq> Some True \<longrightarrow>
            (int k + 1, int i, int k + 1, int j) \<in> set (map tab_span (no_tabs (ob' # rest') s)))
       \<and> map tab_span (no_tabs [\<lparr> allowIndentationTabs = Some True \<rparr>]
                          (js ''x'' @ [TAB] @ js ''foo\<newline>''))
           = [(1, 1, 1, 2)]"
proof (intro conjI impI)
  let ?sc = "SourceCode s"
  let ?span = "(int k + 1, int i, int k + 1, int j)"
  have on: "no_tabs (ob # rest) s = Program True ?sc"
    using assms(3) by (rule no_tabs_option_on)
  have all: "?span \<in> set (map tab_span (Program False ?sc))"
    using assms(1,2) by (simp only: Program_spans span_in_spec_tab_spans) simp
  show "?span \<in> set (map tab_span (no_tabs (ob # rest) s))
            \<longleftrightarrow> \<not> in_indentation (src_lines ?sc ! k) i"
    unfolding on using assms(1,2) by (simp only: Program_spans span_in_spec_tab_spans) simp
  show "?span \<in> set (map tab_span (no_tabs [] s))"
    unfolding no_tabs_without_options by (rule all)
  show "map tab_span (no_tabs [\<lparr> allowIndentationTabs = Some True \<rparr>]
                          (js ''x'' @ [TAB] @ js ''foo\<newline>''))
           = [(1, 1, 1, 2)]"
    by code_simp
  {
    assume "i = 0"
    then have "in_indentation (src_lines ?sc ! k) i" by (simp add: in_indentation_def)
    then show "?span \<notin> set (map tab_span (no_tabs (ob # rest) s))"
      unfolding on by (simp only: Program_spans span_in_spec_tab_spans) simp
  }
  {
    assume out: "\<not> in_indentation (src_lines ?sc ! k) i"
    with assms(1,2) have "?span \<in> set (map tab_span (Program True ?sc))"
      by (simp only: Program_spans span_in_spec_tab_spans) simp
    with all show "?span \<in> set (map tab_span (no_tabs options s))"
      using no_tabs_cases [of options s] by auto
  }
  {
    assume "allowIndentationTabs ob' \<noteq> Some True"
    then have "no_tabs (ob' # rest') s = Program False ?sc" by (rule no_tabs_option_off)
    with all show "?span \<in> set (map tab_span (no_tabs (ob' # rest') s))" by simp
  }
qed

theorem indentation_tabs_suppressed_iff_preceded_by_whitespace_witness:
  "0 < length (src_lines (SourceCode ([TAB] @ js '' '' @ [TAB] @ js ''x'' @ [TAB])))
   \<and> maximal_tab_run (src_lines (SourceCode ([TAB] @ js '' '' @ [TAB] @ js ''x'' @ [TAB])) ! 0) 2 3
   \<and> maximal_tab_run (src_lines (SourceCode ([TAB] @ js '' '' @ [TAB] @ js ''x'' @ [TAB])) ! 0) 4 5
   \<and> allowIndentationTabs \<lparr> allowIndentationTabs = Some True \<rparr> = Some True
   \<and> (1, 2, 1, 3) \<notin> set (map tab_span
         (no_tabs [\<lparr> allowIndentationTabs = Some True \<rparr>]
            ([TAB] @ js '' '' @ [TAB] @ js ''x'' @ [TAB])))
   \<and> (1, 4, 1, 5) \<in> set (map tab_span
         (no_tabs [\<lparr> allowIndentationTabs = Some True \<rparr>]
            ([TAB] @ js '' '' @ [TAB] @ js ''x'' @ [TAB])))
   \<and> (1, 2, 1, 3) \<in> set (map tab_span
         (no_tabs [] ([TAB] @ js '' '' @ [TAB] @ js ''x'' @ [TAB])))
   \<and> (1, 2, 1, 3) \<in> set (map tab_span
         (no_tabs [\<lparr> allowIndentationTabs = Some False \<rparr>]
            ([TAB] @ js '' '' @ [TAB] @ js ''x'' @ [TAB])))"
proof -
  let ?s = "[TAB] @ js '' '' @ [TAB] @ js ''x'' @ [TAB]"
  let ?sc = "SourceCode ?s"
  let ?on = "\<lparr> allowIndentationTabs = Some True \<rparr>"
  let ?off = "\<lparr> allowIndentationTabs = Some False \<rparr>"
  have k: "0 < length (src_lines ?sc)" by code_simp
  have m1: "maximal_tab_run (src_lines ?sc ! 0) 2 3" by code_simp
  have m2: "maximal_tab_run (src_lines ?sc ! 0) 4 5" by code_simp
  have on: "allowIndentationTabs ?on = Some True" by simp
  have off: "allowIndentationTabs ?off \<noteq> Some True" by simp
  have i1: "in_indentation (src_lines ?sc ! 0) 2" by code_simp
  have i2: "\<not> in_indentation (src_lines ?sc ! 0) 4" by code_simp
  from indentation_tabs_suppressed_iff_preceded_by_whitespace [OF k m1 on, of "[]" "[]" ?off "[]"]
    i1 off
  have "(1, 2, 1, 3) \<notin> set (map tab_span (no_tabs [?on] ?s))"
    and "(1, 2, 1, 3) \<in> set (map tab_span (no_tabs [] ?s))"
    and "(1, 2, 1, 3) \<in> set (map tab_span (no_tabs [?off] ?s))"
    by simp_all
  moreover
  from indentation_tabs_suppressed_iff_preceded_by_whitespace [OF k m2 on, of "[]" "[]" ?off "[]"]
    i2
  have "(1, 4, 1, 5) \<in> set (map tab_span (no_tabs [?on] ?s))" by simp
  ultimately show ?thesis using k m1 m2 on by (intro conjI)
qed

text \<open>
  C9. The loop over the matches of a line terminates: \<open>tab_loop\<close> is a total function,
  defined by recursion along the measure \<open>length ln - lastIndex\<close>. Every match is a run
  of at least one tab, and \<^verbatim>\<open>lastIndex\<close> moves strictly forward to the end of the match,
  within the line; so the loop makes at most \<open>length ln - lastIndex\<close> matches before
  \<^verbatim>\<open>exec\<close> returns \<^verbatim>\<open>null\<close> and resets \<^verbatim>\<open>lastIndex\<close> to 0. From \<^verbatim>\<open>lastIndex = 0\<close> the
  matches visited are the maximal runs of tabs of the line, each one once.
\<close>

theorem tab_scan_terminates:
  "(\<forall>m lastIndex'. tabRegex_exec ln lastIndex = (Some m, lastIndex') \<longrightarrow>
       match_text m \<noteq> [] \<and> lastIndex < lastIndex' \<and> lastIndex' \<le> length ln
       \<and> lastIndex' = match_index m + length (match_text m))
   \<and> length (tab_matches ln lastIndex) \<le> length ln - lastIndex
   \<and> tab_loop allow index ln lastIndex
       = (map (tab_context_report index)
            (filter (reported allow ln) (tab_matches ln lastIndex)), 0)
   \<and> map match_span (tab_matches ln 0) = tab_runs ln
   \<and> distinct (tab_runs ln)"
proof (intro conjI allI impI)
  fix m lastIndex'
  assume e: "tabRegex_exec ln lastIndex = (Some m, lastIndex')"
  from tabRegex_exec_Some [OF e] show "match_text m \<noteq> []"
    and "lastIndex' = match_index m + length (match_text m)" by blast+
  from tabRegex_exec_advances [OF e] show "lastIndex < lastIndex'" and "lastIndex' \<le> length ln"
    by blast+
next
  show "length (tab_matches ln lastIndex) \<le> length ln - lastIndex"
    by (rule length_tab_matches)
  show "tab_loop allow index ln lastIndex
       = (map (tab_context_report index)
            (filter (reported allow ln) (tab_matches ln lastIndex)), 0)"
    by (rule tab_loop_matches)
  show "map match_span (tab_matches ln 0) = tab_runs ln"
    by (rule tab_matches_tab_runs)
  show "distinct (tab_runs ln)"
    by (rule distinct_tab_runs)
qed

theorem tab_scan_terminates_witness:
  "tabRegex_exec ([TAB, TAB] @ js ''x'' @ [TAB]) 0
     = (Some \<lparr> match_index = 0, match_text = [TAB, TAB] \<rparr>, 2)
   \<and> [TAB, TAB] \<noteq> [] \<and> (0::nat) < 2
   \<and> length (tab_matches ([TAB, TAB] @ js ''x'' @ [TAB]) 0) \<le> 4
   \<and> map match_span (tab_matches ([TAB, TAB] @ js ''x'' @ [TAB]) 0) = [(0, 2), (3, 4)]
   \<and> fst (tab_loop False 0 ([TAB, TAB] @ js ''x'' @ [TAB]) 0)
       = map (tab_context_report 0) (tab_matches ([TAB, TAB] @ js ''x'' @ [TAB]) 0)"
proof -
  let ?ln = "[TAB, TAB] @ js ''x'' @ [TAB]"
  have e: "tabRegex_exec ?ln 0 = (Some \<lparr> match_index = 0, match_text = [TAB, TAB] \<rparr>, 2)"
    by code_simp
  have r: "tab_runs ?ln = [(0, 2), (3, 4)]" by code_simp
  have l: "length ?ln - 0 = 4" by code_simp
  have f: "reported False ?ln = (\<lambda>m. True)" by (simp add: reported_def fun_eq_iff)
  from tab_scan_terminates [of ?ln 0 False 0] e
  show ?thesis unfolding r l f by auto
qed

end
